theory Spec2Isabelle
  imports Main "HOL-Library.Multiset"
begin

section \<open>Values and properties\<close>

text \<open>
  Frontmatter values are what the YAML parser of the host hands to the plugin: null,
  booleans, numbers, strings, sequences, nested mappings and (for some parsers) native
  dates. The plugin never computes with a number or a date, it only asks for their type
  and turns them into text, so the carrier \<open>'n\<close> of numbers and time values is left open
  and the two conversions of the JavaScript runtime are taken as parameters
  (\<open>numToString\<close>, \<open>dateToString\<close>). A string is its UTF-8 byte sequence.
\<close>

datatype 'n jsval =
    JNull
  | JUndefined
  | JBool bool
  | JNum 'n
  | JDate 'n
  | JStr string
  | JArr "'n jsval list"
  | JObj "(string \<times> 'n jsval) list"

text \<open>
  \<open>crypto.randomUUID()\<close> is modelled as a supply of fresh identifiers: the identifier
  is the current value of a counter, which is then advanced. Two calls never return the
  same identifier (the idealisation of a random 122-bit value).
\<close>

type_synonym uuid = nat

text \<open>
  \<open>interface Property { id; key; value; type; types? }\<close>. The optional field
  \<open>types\<close> is a \<open>Set<string>\<close>, which iterates in insertion order: a list without
  duplicates, \<open>None\<close> when the field is absent.
\<close>

record 'n Property =
  prop_id :: uuid
  prop_key :: string
  prop_value :: "'n jsval"
  prop_type :: string
  prop_types :: "string list option"

type_synonym 'n frontmatter = "(string \<times> 'n jsval) list"

type_synonym TFile = nat

section \<open>Type labels (getPropertyType)\<close>

text \<open>
  The two regular expressions \<open>/^\d{4}-\d{2}-\d{2}$/\<close> and
  \<open>/^\d{4}-\d{2}-\d{2} \d{2}:\d{2}$/\<close> are sequences of single-character atoms
  anchored at both ends; \<open>\d\<close> is an ASCII digit.
\<close>

datatype re_atom = Digit | Lit char

fun re_test :: "re_atom list \<Rightarrow> string \<Rightarrow> bool" where
  "re_test [] s = (s = [])"
| "re_test (a # as) [] = False"
| "re_test (Digit # as) (c # cs) = (c \<in> set ''0123456789'' \<and> re_test as cs)"
| "re_test (Lit d # as) (c # cs) = (c = d \<and> re_test as cs)"

definition date_re :: "re_atom list" where
  "date_re = [Digit, Digit, Digit, Digit, Lit CHR ''-'', Digit, Digit, Lit CHR ''-'', Digit, Digit]"

definition datetime_re :: "re_atom list" where
  "datetime_re = date_re @ [Lit CHR '' '', Digit, Digit, Lit CHR '':'', Digit, Digit]"

fun getPropertyType :: "'n jsval \<Rightarrow> string" where
  "getPropertyType JNull = ''Null''"
| "getPropertyType JUndefined = ''Null''"
| "getPropertyType (JArr vs) = ''List''"
| "getPropertyType (JBool b) = ''Checkbox''"
| "getPropertyType (JNum n) = ''Number''"
| "getPropertyType (JDate d) = ''Date & time''"
| "getPropertyType (JStr s) =
     (if re_test date_re s then ''Date''
      else if re_test datetime_re s then ''Date & time''
      else ''Text'')"
| "getPropertyType (JObj kvs) = ''Text''"

section \<open>Aggregation (getProperties)\<close>

text \<open>\<open>Set.prototype.add\<close> on an insertion-ordered set, and \<open>Array.prototype.join\<close>.\<close>

definition set_add :: "'a \<Rightarrow> 'a list \<Rightarrow> 'a list" where
  "set_add x xs = (if x \<in> set xs then xs else xs @ [x])"

fun join :: "string \<Rightarrow> string list \<Rightarrow> string" where
  "join sep [] = []"
| "join sep [x] = x"
| "join sep (x # y # ys) = x @ sep @ join sep (y # ys)"

text \<open>
  \<open>propertiesMap\<close> is a \<open>Map<string, Property>\<close>: an association list in insertion
  order. The body of the \<open>forEach\<close> over \<open>Object.entries(frontmatter)\<close> works on the
  map, on the snapshot \<open>frontmatterList\<close> of the current file and on the identifier
  supply. \<open>placeholder\<close> is the \<open>value\<close> stored in a new map entry: \<open>null\<close> in
  main.ts, the empty string in the earlier revision of the file.
\<close>

type_synonym 'n propertiesMap = "(string \<times> 'n Property) list"

definition types_add :: "string \<Rightarrow> string \<Rightarrow> 'n propertiesMap \<Rightarrow> 'n propertiesMap" where
  "types_add k ty pm =
     map (\<lambda>(k', e). if k' = k
            then (k', e\<lparr>prop_types := Some (set_add ty (case prop_types e of None \<Rightarrow> [] | Some ts \<Rightarrow> ts))\<rparr>)
            else (k', e)) pm"

definition entry_step ::
  "'n jsval \<Rightarrow> 'n propertiesMap \<times> 'n Property list \<times> uuid \<Rightarrow> string \<times> 'n jsval
     \<Rightarrow> 'n propertiesMap \<times> 'n Property list \<times> uuid" where
  "entry_step placeholder st kv =
     (case st of (pm, frontmatterList, u) \<Rightarrow>
      case kv of (k, v) \<Rightarrow>
        let (fm_id, pm1, u1) =
              (case map_of pm k of
                 None \<Rightarrow>
                   (u,
                    pm @ [(k, \<lparr>prop_id = u, prop_key = k, prop_value = placeholder,
                               prop_type = [], prop_types = Some []\<rparr>)],
                    Suc u)
               | Some e \<Rightarrow> (prop_id e, pm, u));
            ty = getPropertyType v;
            pm2 = types_add k ty pm1;
            fm = \<lparr>prop_id = fm_id, prop_key = k, prop_value = v, prop_type = ty, prop_types = None\<rparr>
        in (pm2, frontmatterList @ [fm], u1))"

text \<open>
  One iteration of \<open>for (const file of fileList)\<close>. \<open>cache file\<close> is
  \<open>metadataCache.getFileCache(file)?.frontmatter\<close>: \<open>None\<close> when the file has no
  metadata block. The snapshot is pushed in either case.
\<close>

definition file_step ::
  "(TFile \<Rightarrow> 'n frontmatter option) \<Rightarrow> 'n jsval
     \<Rightarrow> 'n propertiesMap \<times> 'n Property list list \<times> uuid \<Rightarrow> TFile
     \<Rightarrow> 'n propertiesMap \<times> 'n Property list list \<times> uuid" where
  "file_step cache placeholder st file =
     (case st of (pm, frontmatterLists, u) \<Rightarrow>
        let (pm', frontmatterList, u') =
              (case cache file of
                 None \<Rightarrow> (pm, [], u)
               | Some frontmatter \<Rightarrow> foldl (entry_step placeholder) (pm, [], u) frontmatter)
        in (pm', frontmatterLists @ [frontmatterList], u'))"

definition finalize :: "'n propertiesMap \<Rightarrow> 'n Property list" where
  "finalize pm =
     map (\<lambda>(k, prop). \<lparr>prop_id = prop_id prop, prop_key = prop_key prop,
                        prop_value = prop_value prop,
                        prop_type = join '' | '' (case prop_types prop of None \<Rightarrow> [] | Some ts \<Rightarrow> ts),
                        prop_types = None\<rparr>) pm"

text \<open>
  The state of the plugin and of its modal: the snapshot store \<open>frontmatterLists\<close> of the
  plugin, the selection \<open>fileList\<close>, the working list \<open>propertyList\<close>, the text of the
  add field \<open>newAddName\<close>, and the identifier supply.
\<close>

record 'n state =
  frontmatterLists :: "'n Property list list"
  fileList :: "TFile list"
  propertyList :: "'n Property list"
  newAddName :: string
  next_uuid :: uuid

definition getProperties ::
  "(TFile \<Rightarrow> 'n frontmatter option) \<Rightarrow> 'n jsval \<Rightarrow> TFile list \<Rightarrow> 'n state
     \<Rightarrow> 'n Property list \<times> 'n state" where
  "getProperties cache placeholder files s =
     (case foldl (file_step cache placeholder) ([], frontmatterLists s, next_uuid s) files of
        (pm, fls, u) \<Rightarrow> (finalize pm, s\<lparr>frontmatterLists := fls, next_uuid := u\<rparr>))"

text \<open>\<open>initializeView\<close>: the store is emptied, then the selection is aggregated.\<close>

definition initializeView ::
  "(TFile \<Rightarrow> 'n frontmatter option) \<Rightarrow> 'n jsval \<Rightarrow> 'n state \<Rightarrow> 'n state" where
  "initializeView cache placeholder s =
     (case getProperties cache placeholder (fileList s) (s\<lparr>frontmatterLists := []\<rparr>) of
        (props, s') \<Rightarrow> s'\<lparr>propertyList := props\<rparr>)"

section \<open>Edit operations of the modal\<close>

text \<open>
  \<open>String.prototype.trim\<close> removes white space and line terminators from both ends:
  TAB, LF, VT, FF, CR, SPACE, U+00A0, U+1680, U+2000 to U+200A, U+2028, U+2029, U+202F,
  U+205F, U+3000 and U+FEFF, here by their UTF-8 encodings.
\<close>

definition white_space :: "string list" where
  "white_space =
     map (\<lambda>c. [c]) [CHR 0x09, CHR 0x0A, CHR 0x0B, CHR 0x0C, CHR 0x0D, CHR 0x20]
     @ [[CHR 0xC2, CHR 0xA0], [CHR 0xE1, CHR 0x9A, CHR 0x80]]
     @ map (\<lambda>c. [CHR 0xE2, CHR 0x80, c])
         [CHR 0x80, CHR 0x81, CHR 0x82, CHR 0x83, CHR 0x84, CHR 0x85, CHR 0x86, CHR 0x87,
          CHR 0x88, CHR 0x89, CHR 0x8A, CHR 0xA8, CHR 0xA9, CHR 0xAF]
     @ [[CHR 0xE2, CHR 0x81, CHR 0x9F], [CHR 0xE3, CHR 0x80, CHR 0x80],
        [CHR 0xEF, CHR 0xBB, CHR 0xBF]]"

definition starts_with :: "string \<Rightarrow> string \<Rightarrow> bool" where
  "starts_with s w = (take (length w) s = w)"

function strip_start :: "string list \<Rightarrow> string \<Rightarrow> string" where
  "strip_start ws s =
     (case find (\<lambda>w. w \<noteq> [] \<and> starts_with s w) ws of
        None \<Rightarrow> s
      | Some w \<Rightarrow> strip_start ws (drop (length w) s))"
  by pat_completeness auto
termination
proof (relation "measure (\<lambda>(ws, s). length s)")
  show "wf (measure (\<lambda>(ws, s). length s))" by simp
next
  fix ws :: "string list" and s w :: string
  assume "find (\<lambda>w. w \<noteq> [] \<and> starts_with s w) ws = Some w"
  then have "w \<noteq> []" and "starts_with s w"
    by (auto simp: find_Some_iff)
  then have "s \<noteq> []"
    by (auto simp: starts_with_def)
  with \<open>w \<noteq> []\<close> show "((ws, drop (length w) s), (ws, s)) \<in> measure (\<lambda>(ws, s). length s)"
    by simp
qed

definition trim :: "string \<Rightarrow> string" where
  "trim s = rev (strip_start (map rev white_space) (rev (strip_start white_space s)))"

definition internalpropertyList :: "string list" where
  "internalpropertyList = [''tags'', ''aliases'', ''cssclasses'']"

text \<open>
  \<open>addNewProperty\<close>. The new entry carries \<open>value: null, type: 'Null'\<close> in main.ts and
  \<open>value: '', type: 'Text'\<close> in the earlier revision; both are instances of
  \<open>addNewProperty\<close> below.
\<close>

definition addNewProperty :: "'n jsval \<Rightarrow> string \<Rightarrow> 'n state \<Rightarrow> 'n state" where
  "addNewProperty placeholder ty s =
     (let name = trim (newAddName s) in
      if name \<noteq> [] \<and> \<not> list_ex (\<lambda>p. prop_key p = name) (propertyList s)
      then s\<lparr>propertyList := propertyList s @
                 [\<lparr>prop_id = next_uuid s, prop_key = name, prop_value = placeholder,
                   prop_type = ty, prop_types = None\<rparr>],
              newAddName := [],
              next_uuid := Suc (next_uuid s)\<rparr>
      else s)"

definition onChangeAddInput :: "string \<Rightarrow> 'n state \<Rightarrow> 'n state" where
  "onChangeAddInput v s = s\<lparr>newAddName := v\<rparr>"

fun findIndex :: "('a \<Rightarrow> bool) \<Rightarrow> 'a list \<Rightarrow> nat option" where
  "findIndex P [] = None"
| "findIndex P (x # xs) =
     (if P x then Some 0 else (case findIndex P xs of None \<Rightarrow> None | Some i \<Rightarrow> Some (Suc i)))"

text \<open>
  The rename and delete buttons of a row close over the row's \<open>Property\<close> object, which
  stands at one position of the working list. The row is named by the identifier of its
  object (\<open>data-id\<close>): the first position that carries it; an identifier with no row
  leaves the state as it is. The rename button exists only when the key is not in
  \<open>internalpropertyList\<close>. The name the rename dialog passes is \<open>undefined\<close> (\<open>None\<close>)
  when the user never typed. \<open>filter(p => p !== prop)\<close> drops that one position.
\<close>

definition onRename :: "uuid \<Rightarrow> string option \<Rightarrow> 'n state \<Rightarrow> 'n state" where
  "onRename i name s =
     (case findIndex (\<lambda>p. prop_id p = i) (propertyList s) of
        None \<Rightarrow> s
      | Some j \<Rightarrow>
          if prop_key (propertyList s ! j) \<in> set internalpropertyList then s
          else (case name of
                  None \<Rightarrow> s
                | Some n \<Rightarrow>
                    if n \<noteq> [] \<and> \<not> list_ex (\<lambda>p. prop_key p = n) (propertyList s)
                    then s\<lparr>propertyList :=
                             (propertyList s)[j := (propertyList s ! j)\<lparr>prop_key := n\<rparr>]\<rparr>
                    else s))"

definition onDelete :: "uuid \<Rightarrow> 'n state \<Rightarrow> 'n state" where
  "onDelete i s =
     (case findIndex (\<lambda>p. prop_id p = i) (propertyList s) of
        None \<Rightarrow> s
      | Some j \<Rightarrow> s\<lparr>propertyList := take j (propertyList s) @ drop (Suc j) (propertyList s)\<rparr>)"

text \<open>
  \<open>Array.prototype.splice\<close> as \<open>onDrop\<close> uses it: remove one element at an index,
  insert one element at an index (an index beyond the end appends).
\<close>

definition splice_remove :: "nat \<Rightarrow> 'a list \<Rightarrow> 'a list" where
  "splice_remove i xs = take i xs @ drop (Suc i) xs"

definition splice_insert :: "nat \<Rightarrow> 'a \<Rightarrow> 'a list \<Rightarrow> 'a list" where
  "splice_insert i x xs = take i xs @ [x] @ drop i xs"

text \<open>
  \<open>onDrop\<close>: \<open>draggedId\<close> is \<open>None\<close> when the drag carries no text, \<open>dropIndex\<close> is
  \<open>None\<close> when there is no drop target or \<open>indexOf\<close> returns \<open>-1\<close>.
\<close>

definition onDrop :: "uuid option \<Rightarrow> nat option \<Rightarrow> 'n state \<Rightarrow> 'n state" where
  "onDrop draggedId dropIndex s =
     (case (draggedId, dropIndex) of
        (Some d, Some dropIdx) \<Rightarrow>
          (case findIndex (\<lambda>p. prop_id p = d) (propertyList s) of
             None \<Rightarrow> s
           | Some draggedIndex \<Rightarrow>
               if draggedIndex \<noteq> dropIdx
               then s\<lparr>propertyList :=
                        splice_insert dropIdx (propertyList s ! draggedIndex)
                          (splice_remove draggedIndex (propertyList s))\<rparr>
               else s)
      | _ \<Rightarrow> s)"

section \<open>Replay through the host's metadata interface (main.ts: batchWriteFrontmatter)\<close>

text \<open>
  \<open>frontmatterList.find(fm => fm.id === prop.id) || prop\<close>: the first snapshot entry
  with the identifier of the working-list entry, or the working-list entry itself.
\<close>

definition found_or :: "'n Property list \<Rightarrow> 'n Property \<Rightarrow> 'n Property" where
  "found_or frontmatterList prop =
     (case find (\<lambda>fm. prop_id fm = prop_id prop) frontmatterList of
        None \<Rightarrow> prop
      | Some fm \<Rightarrow> fm)"

text \<open>
  The object the callback of \<open>processFrontMatter\<close> mutates is a plain JavaScript
  object. Its own keys are listed with the array indices first (canonical decimal
  strings below \<open>2^32 - 1\<close>, in ascending order) and then the other strings in the
  order they were created: \<open>'n jsobj\<close> is the list of its own properties in that order.
  \<open>define_own\<close> creates an own property or, when the key exists, replaces its value in
  place.
\<close>

type_synonym 'n jsobj = "(string \<times> 'n jsval) list"

definition dec_val :: "string \<Rightarrow> nat" where
  "dec_val k = foldl (\<lambda>n c. 10 * n + (of_char c - 48)) 0 k"

definition array_index :: "string \<Rightarrow> nat option" where
  "array_index k =
     (if k \<noteq> [] \<and> list_all (\<lambda>c. c \<in> set ''0123456789'') k
         \<and> (k = ''0'' \<or> hd k \<noteq> CHR ''0'') \<and> dec_val k < 2 ^ 32 - 1
      then Some (dec_val k) else None)"

fun insert_index :: "nat \<Rightarrow> string \<Rightarrow> 'v \<Rightarrow> (string \<times> 'v) list \<Rightarrow> (string \<times> 'v) list" where
  "insert_index n k v [] = [(k, v)]"
| "insert_index n k v ((k', v') # kvs) =
     (case array_index k' of
        None \<Rightarrow> (k, v) # (k', v') # kvs
      | Some m \<Rightarrow> if m < n then (k', v') # insert_index n k v kvs else (k, v) # (k', v') # kvs)"

definition define_own :: "string \<Rightarrow> 'v \<Rightarrow> (string \<times> 'v) list \<Rightarrow> (string \<times> 'v) list" where
  "define_own k v obj =
     (if map_of obj k \<noteq> None
      then map (\<lambda>(k', v'). if k' = k then (k', v) else (k', v')) obj
      else (case array_index k of
              None \<Rightarrow> obj @ [(k, v)]
            | Some n \<Rightarrow> insert_index n k v obj))"

text \<open>
  The assignment \<open>frontmatter[k] = v\<close>. The object inherits from \<open>Object.prototype\<close>
  the accessor \<open>__proto__\<close>: an assignment to that key, when the object has no own key
  of that name, runs the setter and creates no own key. The setter makes \<open>v\<close> the
  prototype when \<open>v\<close> is null or an object, and does nothing for a primitive value.
  After that the accessor is out of reach when the prototype is null or is a mapping
  with an own key \<open>__proto__\<close>, and an assignment to \<open>__proto__\<close> then creates an own
  key like any other. The object is therefore its own properties together with a flag
  that says whether \<open>__proto__\<close> still reaches the setter. No other key of a parsed
  value is inherited as an accessor or as a read-only property, so every other
  assignment defines an own property.
\<close>

definition obj_set :: "string \<Rightarrow> 'n jsval \<Rightarrow> 'n jsobj \<times> bool \<Rightarrow> 'n jsobj \<times> bool" where
  "obj_set k v ob =
     (case ob of (own, setter) \<Rightarrow>
        if k = ''__proto__'' \<and> map_of own k = None \<and> setter
        then (own, (case v of
                      JNull \<Rightarrow> False
                    | JObj kvs \<Rightarrow> map_of kvs ''__proto__'' = None
                    | _ \<Rightarrow> True))
        else (define_own k v own, setter))"

definition obj_delete :: "string \<Rightarrow> (string \<times> 'v) list \<Rightarrow> (string \<times> 'v) list" where
  "obj_delete k obj = filter (\<lambda>(k', v'). k' \<noteq> k) obj"

text \<open>
  The callback handed to \<open>processFrontMatter\<close>: delete every own key, then one
  assignment \<open>frontmatter[prop.key] = found.value\<close> for each entry of the working list.
  The host hands over a plain object, whose \<open>__proto__\<close> reaches the setter; what it
  stores afterwards are the own properties.
\<close>

definition replay_step ::
  "'n Property list \<Rightarrow> 'n jsobj \<times> bool \<Rightarrow> 'n Property \<Rightarrow> 'n jsobj \<times> bool" where
  "replay_step frontmatterList ob prop =
     obj_set (prop_key prop) (prop_value (found_or frontmatterList prop)) ob"

definition writeFrontmatter :: "'n Property list \<Rightarrow> 'n Property list \<Rightarrow> 'n jsobj \<Rightarrow> 'n jsobj" where
  "writeFrontmatter frontmatterList props frontmatter =
     (let cleared = foldl (\<lambda>fm k. obj_delete k fm) frontmatter (map fst frontmatter)
      in fst (foldl (replay_step frontmatterList) (cleared, True) props))"

datatype error = TypeError

text \<open>
  The loop of \<open>batchWriteFrontmatter\<close>. \<open>fileManager.processFrontMatter\<close> belongs to
  the host: it hands the callback the metadata block of the file as an object and keeps
  what the callback leaves in it; \<open>store\<close> maps a file to its metadata block. The loop
  reads \<open>this.frontmatterLists[i]\<close>; beyond the end of the store that is
  \<open>undefined\<close>, and the first \<open>frontmatterList.find\<close> raises a TypeError.
\<close>

fun batchWriteLoop ::
  "'n Property list list \<Rightarrow> 'n Property list \<Rightarrow> nat \<Rightarrow> TFile list \<Rightarrow> (TFile \<Rightarrow> 'n jsobj)
     \<Rightarrow> error + (TFile \<Rightarrow> 'n jsobj)" where
  "batchWriteLoop fls ps i [] store = Inr store"
| "batchWriteLoop fls ps i (file # files) store =
     (if i < length fls
      then batchWriteLoop fls ps (Suc i) files
             (store(file := writeFrontmatter (fls ! i) ps (store file)))
      else if ps = []
      then batchWriteLoop fls ps (Suc i) files (store(file := writeFrontmatter [] [] (store file)))
      else Inl TypeError)"

definition batchWriteFrontmatter ::
  "'n state \<Rightarrow> (TFile \<Rightarrow> 'n jsobj) \<Rightarrow> error + (TFile \<Rightarrow> 'n jsobj)" where
  "batchWriteFrontmatter s store =
     batchWriteLoop (frontmatterLists s) (propertyList s) 0 (fileList s) store"

section \<open>Replay by rewriting the file text (earlier revision: updateMarkdownFiles)\<close>

record 'n host =
  numToString :: "'n \<Rightarrow> string"
  dateToString :: "'n \<Rightarrow> string"

text \<open>
  The conversion to a string that a template literal and \<open>RegExp.prototype.test\<close>
  apply to a value. An array is its elements joined by commas, with \<open>null\<close> and
  \<open>undefined\<close> as the empty string; a plain object is \<open>[object Object]\<close>, unless it
  has a key \<open>toString\<close> of its own, whose value (never a function in parsed YAML)
  makes the conversion raise a TypeError.
\<close>

fun js_toString :: "'n host \<Rightarrow> 'n jsval \<Rightarrow> error + string"
  and js_join :: "'n host \<Rightarrow> 'n jsval list \<Rightarrow> error + string" where
  "js_toString H JNull = Inr ''null''"
| "js_toString H JUndefined = Inr ''undefined''"
| "js_toString H (JBool b) = Inr (if b then ''true'' else ''false'')"
| "js_toString H (JNum n) = Inr (numToString H n)"
| "js_toString H (JDate d) = Inr (dateToString H d)"
| "js_toString H (JStr s) = Inr s"
| "js_toString H (JArr vs) = js_join H vs"
| "js_toString H (JObj kvs) =
     (if map_of kvs ''toString'' \<noteq> None then Inl TypeError else Inr ''[object Object]'')"
| "js_join H [] = Inr []"
| "js_join H (v # vs) =
     (case (if v = JNull \<or> v = JUndefined then Inr [] else js_toString H v) of
        Inl e \<Rightarrow> Inl e
      | Inr s \<Rightarrow>
          (case js_join H vs of
             Inl e \<Rightarrow> Inl e
           | Inr r \<Rightarrow> Inr (if vs = [] then s else s @ '','' @ r)))"

text \<open>
  \<open>wikiLinkPattern = /^\[\[.*\]\]$/\<close>: two opening brackets, any characters but line
  terminators (LF, CR, U+2028, U+2029), two closing brackets, anchored at both ends.
\<close>

fun has_line_terminator :: "string \<Rightarrow> bool" where
  "has_line_terminator [] = False"
| "has_line_terminator (c # cs) =
     (c = CHR 0x0A \<or> c = CHR 0x0D
      \<or> starts_with (c # cs) [CHR 0xE2, CHR 0x80, CHR 0xA8]
      \<or> starts_with (c # cs) [CHR 0xE2, CHR 0x80, CHR 0xA9]
      \<or> has_line_terminator cs)"

definition wikiLinkPattern_test :: "string \<Rightarrow> bool" where
  "wikiLinkPattern_test s =
     (4 \<le> length s \<and> take 2 s = ''[['' \<and> drop (length s - 2) s = '']]''
      \<and> \<not> has_line_terminator (take (length s - 4) (drop 2 s)))"

text \<open>\<open>v.replace(/"/g, '\\"')\<close>: a backslash before every double quote.\<close>

definition escape_quotes :: "string \<Rightarrow> string" where
  "escape_quotes s = concat (map (\<lambda>c. if c = CHR 0x22 then [CHR 0x5C, CHR 0x22] else [c]) s)"

fun mapE :: "('a \<Rightarrow> error + 'b) \<Rightarrow> 'a list \<Rightarrow> error + 'b list" where
  "mapE f [] = Inr []"
| "mapE f (x # xs) =
     (case f x of
        Inl e \<Rightarrow> Inl e
      | Inr y \<Rightarrow> (case mapE f xs of Inl e \<Rightarrow> Inl e | Inr ys \<Rightarrow> Inr (y # ys)))"

text \<open>
  The callback of \<open>value.map\<close> in \<open>stringifyValue\<close>. \<open>test\<close> converts its argument to
  a string; \<open>v.replace\<close> exists on strings only, so a matching element that is not a
  string raises a TypeError.
\<close>

definition stringify_item :: "'n host \<Rightarrow> 'n jsval \<Rightarrow> error + string" where
  "stringify_item H v =
     (case js_toString H v of
        Inl e \<Rightarrow> Inl e
      | Inr s \<Rightarrow>
          if wikiLinkPattern_test s
          then (case v of
                  JStr t \<Rightarrow> Inr ([CHR 0x0A] @ ''  - '' @ [CHR 0x22] @ escape_quotes t @ [CHR 0x22])
                | _ \<Rightarrow> Inl TypeError)
          else Inr ([CHR 0x0A] @ ''  - '' @ s))"

text \<open>
  \<open>stringifyValue\<close> returns a string for an array and the value itself otherwise (its
  declared result type is not enforced at run time).
\<close>

definition stringifyValue :: "'n host \<Rightarrow> 'n jsval \<Rightarrow> error + 'n jsval" where
  "stringifyValue H v =
     (case v of
        JArr vs \<Rightarrow> (case mapE (stringify_item H) vs of
                      Inl e \<Rightarrow> Inl e
                    | Inr items \<Rightarrow> Inr (JStr (concat items)))
      | _ \<Rightarrow> Inr v)"

text \<open>One element of \<open>renderList\<close>: the template literal \<open>`${key}: ${stringifyValue(value)}`\<close>.\<close>

definition renderLine :: "'n host \<Rightarrow> 'n Property list \<Rightarrow> 'n Property \<Rightarrow> error + string" where
  "renderLine H frontmatterList prop =
     (case stringifyValue H (prop_value (found_or frontmatterList prop)) of
        Inl e \<Rightarrow> Inl e
      | Inr v \<Rightarrow>
          (case js_toString H v of
             Inl e \<Rightarrow> Inl e
           | Inr s \<Rightarrow> Inr (prop_key prop @ '': '' @ s)))"

text \<open>
  \<open>frontmatterList\<close> is \<open>this.frontmatterLists[i]\<close>: \<open>None\<close> beyond the end of the
  store, where \<open>frontmatterList.find\<close> raises a TypeError.
\<close>

definition renderList ::
  "'n host \<Rightarrow> 'n Property list option \<Rightarrow> 'n Property list \<Rightarrow> error + string list" where
  "renderList H frontmatterList props =
     mapE (\<lambda>prop. case frontmatterList of
                     None \<Rightarrow> Inl TypeError
                   | Some fl \<Rightarrow> renderLine H fl prop) props"

text \<open>\<open>String.prototype.split\<close> with a separator that is not empty.\<close>

function js_split :: "string \<Rightarrow> string \<Rightarrow> string list" where
  "js_split sep s =
     (if s = [] then [[]]
      else if sep \<noteq> [] \<and> starts_with s sep then [] # js_split sep (drop (length sep) s)
      else (case js_split sep (tl s) of
              [] \<Rightarrow> [[hd s]]
            | p # ps \<Rightarrow> (hd s # p) # ps))"
  by pat_completeness auto
termination
  by (relation "measure (\<lambda>(sep, s). length s)") auto

declare js_split.simps [simp del]

definition newFrontmatter :: "string list \<Rightarrow> string" where
  "newFrontmatter rl =
     (if rl \<noteq> [] then ''---'' @ [CHR 0x0A] @ join [CHR 0x0A] rl @ [CHR 0x0A] @ ''---'' @ [CHR 0x0A]
      else [])"

definition newContent :: "string \<Rightarrow> string" where
  "newContent content = trim (join ''---'' (drop 2 (js_split ''---'' content)))"

definition rewriteFile ::
  "'n host \<Rightarrow> 'n Property list option \<Rightarrow> 'n Property list \<Rightarrow> string \<Rightarrow> error + string" where
  "rewriteFile H frontmatterList props content =
     (case renderList H frontmatterList props of
        Inl e \<Rightarrow> Inl e
      | Inr rl \<Rightarrow> Inr (newFrontmatter rl @ newContent content))"

text \<open>
  The loop of \<open>updateMarkdownFiles\<close> over the positions of \<open>fileList\<close>; \<open>vault\<close> maps a
  file to its text (\<open>vault.read\<close>, \<open>vault.modify\<close>). An exception ends the loop: the
  files before the failing one are rewritten by then and the others keep their text, so
  the result is the vault together with the exception, if one was raised.
\<close>

fun updateLoop ::
  "'n host \<Rightarrow> 'n Property list list \<Rightarrow> 'n Property list \<Rightarrow> nat \<Rightarrow> TFile list \<Rightarrow> (TFile \<Rightarrow> string)
     \<Rightarrow> (TFile \<Rightarrow> string) \<times> error option" where
  "updateLoop H fls ps i [] vault = (vault, None)"
| "updateLoop H fls ps i (file # files) vault =
     (case rewriteFile H (if i < length fls then Some (fls ! i) else None) ps (vault file) of
        Inl e \<Rightarrow> (vault, Some e)
      | Inr v \<Rightarrow> updateLoop H fls ps (Suc i) files (vault(file := v)))"

definition updateMarkdownFiles ::
  "'n host \<Rightarrow> 'n state \<Rightarrow> (TFile \<Rightarrow> string) \<Rightarrow> (TFile \<Rightarrow> string) \<times> error option" where
  "updateMarkdownFiles H s vault =
     updateLoop H (frontmatterLists s) (propertyList s) 0 (fileList s) vault"

section \<open>Aggregation, described\<close>

text \<open>
  What the specification says of aggregation, written without the loops: the distinct
  elements of a list in the order of their first occurrence, the position of a key in
  that list (identifiers are handed out in that order), the values a key has across the
  documents, and from these the unified list and the snapshots.
\<close>

fun first_seen :: "'a list \<Rightarrow> 'a list" where
  "first_seen [] = []"
| "first_seen (x # xs) = x # filter (\<lambda>y. y \<noteq> x) (first_seen xs)"

fun index_of :: "'a \<Rightarrow> 'a list \<Rightarrow> nat" where
  "index_of x [] = 0"
| "index_of x (y # ys) = (if x = y then 0 else Suc (index_of x ys))"

definition entries :: "(TFile \<Rightarrow> 'n frontmatter option) \<Rightarrow> TFile \<Rightarrow> 'n frontmatter" where
  "entries cache file = (case cache file of None \<Rightarrow> [] | Some fm \<Rightarrow> fm)"

definition key_id :: "uuid \<Rightarrow> string list \<Rightarrow> string \<Rightarrow> uuid" where
  "key_id u0 keys k = u0 + index_of k (first_seen keys)"

definition key_values :: "'n frontmatter \<Rightarrow> string \<Rightarrow> 'n jsval list" where
  "key_values es k = map snd (filter (\<lambda>(k', v). k' = k) es)"

definition key_types :: "'n frontmatter \<Rightarrow> string \<Rightarrow> string list" where
  "key_types es k = first_seen (map getPropertyType (key_values es k))"

definition agg_entry :: "'n jsval \<Rightarrow> uuid \<Rightarrow> 'n frontmatter \<Rightarrow> string \<Rightarrow> 'n Property" where
  "agg_entry ph u0 es k =
     \<lparr>prop_id = key_id u0 (map fst es) k, prop_key = k, prop_value = ph, prop_type = [],
      prop_types = Some (key_types es k)\<rparr>"

definition agg_map :: "'n jsval \<Rightarrow> uuid \<Rightarrow> 'n frontmatter \<Rightarrow> 'n propertiesMap" where
  "agg_map ph u0 es = map (\<lambda>k. (k, agg_entry ph u0 es k)) (first_seen (map fst es))"

definition snapshot_entry :: "uuid \<Rightarrow> string list \<Rightarrow> string \<times> 'n jsval \<Rightarrow> 'n Property" where
  "snapshot_entry u0 keys kv =
     \<lparr>prop_id = key_id u0 keys (fst kv), prop_key = fst kv, prop_value = snd kv,
      prop_type = getPropertyType (snd kv), prop_types = None\<rparr>"

definition all_entries :: "(TFile \<Rightarrow> 'n frontmatter option) \<Rightarrow> TFile list \<Rightarrow> 'n frontmatter" where
  "all_entries cache files = concat (map (entries cache) files)"

definition unified :: "'n jsval \<Rightarrow> uuid \<Rightarrow> 'n frontmatter \<Rightarrow> 'n Property list" where
  "unified ph u0 es =
     map (\<lambda>k. \<lparr>prop_id = key_id u0 (map fst es) k, prop_key = k, prop_value = ph,
                prop_type = join '' | '' (key_types es k), prop_types = None\<rparr>)
       (first_seen (map fst es))"

definition snapshots ::
  "(TFile \<Rightarrow> 'n frontmatter option) \<Rightarrow> uuid \<Rightarrow> TFile list \<Rightarrow> 'n Property list list" where
  "snapshots cache u0 files =
     map (\<lambda>f. map (snapshot_entry u0 (map fst (all_entries cache files))) (entries cache f)) files"

text \<open>
  The value a document has for a key, or the placeholder when it lacks the key; and the
  round trip of document \<open>i\<close>: aggregate the selection, edit nothing, run the callback
  of the replay on the metadata object \<open>obj\<close> of the document.
\<close>

definition resolve :: "(TFile \<Rightarrow> 'n frontmatter option) \<Rightarrow> 'n jsval \<Rightarrow> TFile \<Rightarrow> string \<Rightarrow> 'n jsval" where
  "resolve cache ph f k = (case map_of (entries cache f) k of None \<Rightarrow> ph | Some v \<Rightarrow> v)"

definition roundtrip ::
  "(TFile \<Rightarrow> 'n frontmatter option) \<Rightarrow> 'n jsval \<Rightarrow> 'n state \<Rightarrow> nat \<Rightarrow> 'n jsobj \<Rightarrow> 'n jsobj" where
  "roundtrip cache ph s i obj =
     writeFrontmatter (frontmatterLists (initializeView cache ph s) ! i)
       (propertyList (initializeView cache ph s)) obj"

text \<open>
  The replay that rewrites the file text, described: the value an entry resolves to in a
  snapshot (the value of the snapshot entry with its identifier, else its own), whether
  serialising a value raises no exception, the text a value is serialised to, and the
  lines emitted for a document. \<open>ids_below\<close> says that every identifier in the store was
  handed out before the next fresh one. \<open>plain\<close> values are those of the property
  types the host edits: scalars, and lists of scalars none of which reads as a link
  unless it is a string.
\<close>

definition resolved :: "'n Property list \<Rightarrow> 'n Property \<Rightarrow> 'n jsval" where
  "resolved fl e =
     (case find (\<lambda>fm. prop_id fm = prop_id e) fl of
        None \<Rightarrow> prop_value e
      | Some fm \<Rightarrow> prop_value fm)"

definition renders :: "'n host \<Rightarrow> 'n jsval \<Rightarrow> bool" where
  "renders H v =
     (case stringifyValue H v of
        Inl e \<Rightarrow> False
      | Inr w \<Rightarrow> (case js_toString H w of Inl e \<Rightarrow> False | Inr t \<Rightarrow> True))"

definition emitted_text :: "'n host \<Rightarrow> 'n jsval \<Rightarrow> string" where
  "emitted_text H v =
     (case stringifyValue H v of
        Inl e \<Rightarrow> []
      | Inr w \<Rightarrow> (case js_toString H w of Inl e \<Rightarrow> [] | Inr t \<Rightarrow> t))"

definition emitted_lines :: "'n host \<Rightarrow> 'n Property list \<Rightarrow> 'n Property list \<Rightarrow> string list" where
  "emitted_lines H fl ps = map (\<lambda>e. prop_key e @ '': '' @ emitted_text H (resolved fl e)) ps"

text \<open>
  The lines an entry makes in the metadata block, written out: a scalar is one line
  \<open>key: text\<close>; a list is the line \<open>key: \<close> followed by one line \<open>  - item\<close> for each
  element, a string element that reads as a link in double quotes with its own double
  quotes escaped. \<open>unbroken\<close> says that none of these lines holds a line terminator.
\<close>

definition scalar_text :: "'n host \<Rightarrow> 'n jsval \<Rightarrow> string" where
  "scalar_text H v = (case js_toString H v of Inl e \<Rightarrow> [] | Inr t \<Rightarrow> t)"

definition item_text :: "'n host \<Rightarrow> 'n jsval \<Rightarrow> string" where
  "item_text H v =
     (case v of
        JStr t \<Rightarrow> if wikiLinkPattern_test t then [CHR 0x22] @ escape_quotes t @ [CHR 0x22] else t
      | _ \<Rightarrow> scalar_text H v)"

definition entry_lines :: "'n host \<Rightarrow> string \<Rightarrow> 'n jsval \<Rightarrow> string list" where
  "entry_lines H k v =
     (case v of
        JArr vs \<Rightarrow> (k @ '': '') # map (\<lambda>x. ''  - '' @ item_text H x) vs
      | _ \<Rightarrow> [k @ '': '' @ scalar_text H v])"

definition unbroken :: "'n host \<Rightarrow> string \<Rightarrow> 'n jsval \<Rightarrow> bool" where
  "unbroken H k v = list_all (\<lambda>l. \<not> has_line_terminator l) (entry_lines H k v)"

definition ids_below :: "'n state \<Rightarrow> bool" where
  "ids_below s = list_all (list_all (\<lambda>fm. prop_id fm < next_uuid s)) (frontmatterLists s)"

definition plain_item :: "'n host \<Rightarrow> 'n jsval \<Rightarrow> bool" where
  "plain_item H v =
     (case v of
        JStr t \<Rightarrow> True
      | JNull \<Rightarrow> True
      | JUndefined \<Rightarrow> True
      | JBool b \<Rightarrow> True
      | JNum n \<Rightarrow> \<not> wikiLinkPattern_test (numToString H n)
      | JDate d \<Rightarrow> \<not> wikiLinkPattern_test (dateToString H d)
      | _ \<Rightarrow> False)"

definition plain :: "'n host \<Rightarrow> 'n jsval \<Rightarrow> bool" where
  "plain H v =
     (case v of
        JArr vs \<Rightarrow> list_all (plain_item H) vs
      | JObj kvs \<Rightarrow> map_of kvs ''toString'' = None
      | _ \<Rightarrow> True)"

section \<open>Example inputs\<close>

text \<open>A fresh modal over a selection: nothing aggregated yet, identifiers start at 0.\<close>

definition ex_state :: "TFile list \<Rightarrow> nat state" where
  "ex_state files =
     \<lparr>frontmatterLists = [], fileList = files, propertyList = [], newAddName = [], next_uuid = 0\<rparr>"

text \<open>Two documents with the key \<open>K\<close>: a number in the first, a text in the second.\<close>

definition ex_number_text :: "TFile \<Rightarrow> nat frontmatter option" where
  "ex_number_text = map_of [(0, [(''K'', JNum 7)]), (1, [(''K'', JStr ''seven'')])]"

text \<open>
  Three documents with the keys Title and Year, Title, Year and Director, and Title and
  Director, a fourth document without a metadata block, and the editing session that
  aggregation opens over the four.
\<close>

definition ex_movies :: "TFile \<Rightarrow> nat frontmatter option" where
  "ex_movies =
     map_of [(0, [(''Title'', JStr ''Alien''), (''Year'', JNum 1979)]),
             (1, [(''Title'', JStr ''Heat''), (''Year'', JNum 1995), (''Director'', JStr ''Mann'')]),
             (2, [(''Title'', JStr ''Ran''), (''Director'', JStr ''Kurosawa'')])]"

definition ex_session :: "nat state" where
  "ex_session = initializeView ex_movies JNull (ex_state [0, 1, 2, 3])"

text \<open>\<open>ex_movies\<close> with the Year of its second document changed.\<close>

definition ex_movies_changed :: "TFile \<Rightarrow> nat frontmatter option" where
  "ex_movies_changed =
     ex_movies(1 \<mapsto> [(''Title'', JStr ''Heat''), (''Year'', JStr ''unknown''), (''Director'', JStr ''Mann'')])"

text \<open>
  A host that prints natural numbers in decimal; the session of the earlier revision
  over \<open>ex_movies\<close> with \<open>Score\<close> typed into the add field, then added (the new entry
  has the value \<open>''\<close> and the type \<open>'Text'\<close> there); and file texts, the first with a
  metadata block and a body.
\<close>

function show_nat :: "nat \<Rightarrow> string" where
  "show_nat n =
     (if n < 10 then [''0123456789'' ! n]
      else show_nat (n div 10) @ [''0123456789'' ! (n mod 10)])"
  by pat_completeness auto
termination
  by (relation "measure id") auto

definition ex_host :: "nat host" where
  "ex_host = \<lparr>numToString = show_nat, dateToString = show_nat\<rparr>"

definition ex_typed :: "nat state" where
  "ex_typed = onChangeAddInput ''Score'' (initializeView ex_movies (JStr []) (ex_state [0, 1, 2, 3]))"

definition ex_scored :: "nat state" where
  "ex_scored = addNewProperty (JStr []) ''Text'' ex_typed"

definition ex_vault :: "TFile \<Rightarrow> string" where
  "ex_vault f =
     (if f = 0 then ''---\<newline>Title: Alien\<newline>Year: 1979\<newline>---\<newline>A film.''
      else ''Notes without a metadata block'')"

text \<open>
  Three documents of which the second holds a list nested in a list that reads as a
  link, and a document whose text value holds a line feed; with their sessions in the
  earlier revision.
\<close>

definition ex_nested :: "TFile \<Rightarrow> nat frontmatter option" where
  "ex_nested =
     map_of [(0, [(''a'', JStr ''x'')]),
             (1, [(''links'', JArr [JArr [JStr ''[[x]]'']])]),
             (2, [(''a'', JStr ''y'')])]"

definition ex_nested_session :: "nat state" where
  "ex_nested_session = initializeView ex_nested (JStr []) (ex_state [0, 1, 2])"

definition ex_broken :: "TFile \<Rightarrow> nat frontmatter option" where
  "ex_broken = map_of [(0, [(''note'', JStr (''x'' @ [CHR 0x0A] @ ''Evil: 1''))])]"

definition ex_broken_session :: "nat state" where
  "ex_broken_session = initializeView ex_broken (JStr []) (ex_state [0])"

section \<open>Aggregation: the loops compute the description\<close>

lemma set_first_seen [simp]: "set (first_seen xs) = set xs"
  by (induction xs) auto

lemma distinct_first_seen [simp]: "distinct (first_seen xs)"
  by (induction xs) auto

lemma first_seen_snoc:
  "first_seen (xs @ [x]) = (if x \<in> set xs then first_seen xs else first_seen xs @ [x])"
proof (induction xs)
  case Nil
  show ?case by simp
next
  case (Cons a xs)
  have id: "filter (\<lambda>y. y \<noteq> a) (first_seen xs) = first_seen xs" if "a \<notin> set xs"
    using that by (auto simp: filter_id_conv)
  show ?case using Cons by (auto simp: id)
qed

lemma first_seen_set_add: "first_seen (xs @ [x]) = set_add x (first_seen xs)"
  by (simp add: first_seen_snoc set_add_def)

lemma first_seen_append:
  "first_seen (xs @ ys) = first_seen xs @ filter (\<lambda>y. y \<notin> set xs) (first_seen ys)"
proof (induction ys rule: rev_induct)
  case Nil
  show ?case by simp
next
  case (snoc y ys)
  have "first_seen (xs @ ys @ [y]) = first_seen ((xs @ ys) @ [y])" by simp
  also have "\<dots> = (if y \<in> set (xs @ ys) then first_seen (xs @ ys) else first_seen (xs @ ys) @ [y])"
    by (rule first_seen_snoc)
  finally show ?case using snoc by (auto simp: first_seen_snoc)
qed

lemma index_of_append: "x \<in> set xs \<Longrightarrow> index_of x (xs @ ys) = index_of x xs"
  by (induction xs) auto

lemma index_of_fresh: "x \<notin> set xs \<Longrightarrow> index_of x (xs @ [x]) = length xs"
  by (induction xs) auto

lemma index_of_less: "x \<in> set xs \<Longrightarrow> index_of x xs < length xs"
  by (induction xs) auto

lemma index_of_inj: "x \<in> set xs \<Longrightarrow> index_of x xs = index_of y xs \<Longrightarrow> x = y"
  by (induction xs) (auto split: if_splits)

lemma nth_index_of: "x \<in> set xs \<Longrightarrow> xs ! index_of x xs = x"
  by (induction xs) auto

lemma key_id_stable: "k \<in> set keys \<Longrightarrow> key_id u0 (keys @ keys') k = key_id u0 keys k"
  by (simp add: key_id_def first_seen_append index_of_append)

lemma key_id_inj:
  "k \<in> set keys \<Longrightarrow> key_id u0 keys k = key_id u0 keys k' \<Longrightarrow> k = k'"
  using index_of_inj[of k "first_seen keys" k'] by (simp add: key_id_def)

lemma map_of_agg_map:
  "map_of (agg_map ph u0 es) k = (if k \<in> fst ` set es then Some (agg_entry ph u0 es k) else None)"
  by (auto simp: agg_map_def map_of_map_restrict restrict_map_def)

lemma key_types_snoc:
  "key_types (es @ [(k, v)]) k' =
     (if k' = k then set_add (getPropertyType v) (key_types es k) else key_types es k')"
  by (simp add: key_types_def key_values_def first_seen_set_add)

lemma entry_step_agg:
  "entry_step ph (agg_map ph u0 es, fl, u0 + length (first_seen (map fst es))) (k, v) =
     (agg_map ph u0 (es @ [(k, v)]),
      fl @ [snapshot_entry u0 (map fst (es @ [(k, v)])) (k, v)],
      u0 + length (first_seen (map fst (es @ [(k, v)]))))"
proof (cases "k \<in> fst ` set es")
  case True
  then have mem: "k \<in> set (map fst es)" by simp
  have keys: "first_seen (map fst (es @ [(k, v)])) = first_seen (map fst es)"
    using mem by (simp add: first_seen_snoc)
  have ent: "types_add k (getPropertyType v) (agg_map ph u0 es) = agg_map ph u0 (es @ [(k, v)])"
    unfolding agg_map_def types_add_def keys[simplified] 
    by (auto simp: agg_entry_def key_types_snoc key_id_def first_seen_snoc mem[simplified] keys[simplified])
  show ?thesis
    using True mem ent
    by (simp add: entry_step_def map_of_agg_map snapshot_entry_def agg_entry_def key_id_def first_seen_snoc)
next
  case False
  then have nmem: "k \<notin> set (map fst es)" by simp
  have keys: "first_seen (map fst (es @ [(k, v)])) = first_seen (map fst es) @ [k]"
    using nmem by (simp add: first_seen_snoc)
  have kt: "key_types es k = []"
  proof -
    have "filter (\<lambda>(k', v). k' = k) es = []"
      using False by (force simp: filter_empty_conv)
    then show ?thesis by (simp add: key_types_def key_values_def)
  qed
  have ent: "types_add k (getPropertyType v)
          (agg_map ph u0 es @ [(k, \<lparr>prop_id = u0 + length (first_seen (map fst es)), prop_key = k,
              prop_value = ph, prop_type = [], prop_types = Some []\<rparr>)])
        = agg_map ph u0 (es @ [(k, v)])"
    using nmem False
    unfolding agg_map_def types_add_def
    by (auto simp: keys[simplified] agg_entry_def key_types_snoc key_id_def index_of_append index_of_fresh kt set_add_def)
  show ?thesis
    using False nmem ent
    by (simp add: entry_step_def map_of_agg_map snapshot_entry_def key_id_def keys[simplified] index_of_fresh)
qed

lemma snapshot_entry_stable:
  "fst kv \<in> set keys \<Longrightarrow> snapshot_entry u0 (keys @ keys') kv = snapshot_entry u0 keys kv"
  by (simp add: snapshot_entry_def key_id_stable)

lemma entries_fold_agg:
  "foldl (entry_step ph) (agg_map ph u0 es, fl, u0 + length (first_seen (map fst es))) fm =
     (agg_map ph u0 (es @ fm),
      fl @ map (snapshot_entry u0 (map fst (es @ fm))) fm,
      u0 + length (first_seen (map fst (es @ fm))))"
proof (induction fm arbitrary: es fl)
  case Nil
  show ?case by simp
next
  case (Cons kv fm)
  obtain k v where kv: "kv = (k, v)" by (cases kv)
  have "snapshot_entry u0 ((map fst es @ [k]) @ map fst fm) (k, v)
      = snapshot_entry u0 (map fst es @ [k]) (k, v)"
    by (rule snapshot_entry_stable) simp
  then have stable: "snapshot_entry u0 (map fst es @ k # map fst fm) (k, v)
      = snapshot_entry u0 (map fst es @ [k]) (k, v)"
    by simp
  show ?case
    using Cons.IH[of "es @ [(k, v)]" "fl @ [snapshot_entry u0 (map fst (es @ [(k, v)])) (k, v)]"]
    by (simp add: kv entry_step_agg stable)
qed

lemma file_step_agg:
  "file_step cache ph (agg_map ph u0 es, fls, u0 + length (first_seen (map fst es))) file =
     (agg_map ph u0 (es @ entries cache file),
      fls @ [map (snapshot_entry u0 (map fst (es @ entries cache file))) (entries cache file)],
      u0 + length (first_seen (map fst (es @ entries cache file))))"
  by (cases "cache file") (simp_all add: file_step_def entries_def entries_fold_agg)

lemma all_entries_Nil: "all_entries cache [] = []"
  by (simp add: all_entries_def)

lemma all_entries_Cons: "all_entries cache (f # files) = entries cache f @ all_entries cache files"
  by (simp add: all_entries_def)

lemma files_fold_agg:
  "foldl (file_step cache ph) (agg_map ph u0 es, fls, u0 + length (first_seen (map fst es))) files =
     (agg_map ph u0 (es @ all_entries cache files),
      fls @ map (\<lambda>f. map (snapshot_entry u0 (map fst (es @ all_entries cache files))) (entries cache f)) files,
      u0 + length (first_seen (map fst (es @ all_entries cache files))))"
proof (induction files arbitrary: es fls)
  case Nil
  show ?case by (simp add: all_entries_Nil)
next
  case (Cons f files)
  have stable: "map (snapshot_entry u0 ((map fst es @ map fst (entries cache f)) @ map fst (all_entries cache files)))
          (entries cache f)
     = map (snapshot_entry u0 (map fst es @ map fst (entries cache f))) (entries cache f)"
    by (rule map_cong[OF refl], rule snapshot_entry_stable) auto
  show ?case
    using Cons.IH[of "es @ entries cache f"
        "fls @ [map (snapshot_entry u0 (map fst (es @ entries cache f))) (entries cache f)]"] stable
    by (simp add: file_step_agg all_entries_Cons)
qed

lemma finalize_agg_map: "finalize (agg_map ph u0 es) = unified ph u0 es"
  by (simp add: finalize_def agg_map_def unified_def agg_entry_def)

lemma agg_map_Nil: "agg_map ph u0 [] = []"
  by (simp add: agg_map_def)

lemma getProperties_described:
  "getProperties cache ph files s =
     (unified ph (next_uuid s) (all_entries cache files),
      s\<lparr>frontmatterLists := frontmatterLists s @ snapshots cache (next_uuid s) files,
        next_uuid := next_uuid s + length (first_seen (map fst (all_entries cache files)))\<rparr>)"
  using files_fold_agg[of cache ph "next_uuid s" "[]" "frontmatterLists s" files]
  by (simp add: getProperties_def agg_map_Nil finalize_agg_map snapshots_def)

lemma initializeView_described:
  "initializeView cache ph s =
     s\<lparr>frontmatterLists := snapshots cache (next_uuid s) (fileList s),
       next_uuid := next_uuid s + length (first_seen (map fst (all_entries cache (fileList s)))),
       propertyList := unified ph (next_uuid s) (all_entries cache (fileList s))\<rparr>"
  by (simp add: initializeView_def getProperties_described)

section \<open>Type labels\<close>

lemma re_test_length: "re_test as s \<Longrightarrow> length s = length as"
  by (induction as s rule: re_test.induct) auto

lemma unified_type:
  "p \<in> set (unified ph u0 es) \<Longrightarrow>
     prop_type p = join '' | '' (first_seen (map getPropertyType (key_values es (prop_key p))))"
  by (auto simp: unified_def key_types_def)

text \<open>
  C5, as the code has it. The label of a value is \<open>Null\<close> for null and undefined (an
  absent or empty YAML value), \<open>List\<close> for a sequence, \<open>Checkbox\<close> for a boolean,
  \<open>Number\<close> for a number, \<open>Date\<close> for a string of the form YYYY-MM-DD,
  \<open>Date & time\<close> (lower-case t) for a string of the form YYYY-MM-DD HH:MM and for a
  native date, and \<open>Text\<close> for every other string and for a mapping. The label of a
  unified entry is the list of the distinct labels of the values its key has across the
  documents, in the order of first occurrence, joined with \<open>" | "\<close>.
\<close>

theorem C5_type_labels:
  "getPropertyType (JNull :: 'n jsval) = ''Null''
   \<and> getPropertyType (JUndefined :: 'n jsval) = ''Null''
   \<and> getPropertyType (JArr vs :: 'n jsval) = ''List''
   \<and> getPropertyType (JBool b :: 'n jsval) = ''Checkbox''
   \<and> getPropertyType (JNum n) = ''Number''
   \<and> getPropertyType (JDate d) = ''Date & time''
   \<and> (re_test date_re str \<longrightarrow> getPropertyType (JStr str :: 'n jsval) = ''Date'')
   \<and> (re_test datetime_re str \<longrightarrow> getPropertyType (JStr str :: 'n jsval) = ''Date & time'')
   \<and> (\<not> re_test date_re str \<and> \<not> re_test datetime_re str
        \<longrightarrow> getPropertyType (JStr str :: 'n jsval) = ''Text'')
   \<and> getPropertyType (JObj kvs :: 'n jsval) = ''Text''
   \<and> (\<forall>p \<in> set (propertyList (initializeView cache ph s)).
         prop_type p =
           join '' | '' (first_seen (map getPropertyType
                          (key_values (all_entries cache (fileList s)) (prop_key p)))))"
proof -
  have "re_test date_re str \<Longrightarrow> \<not> re_test datetime_re str"
    using re_test_length[of date_re str] re_test_length[of datetime_re str]
    by (auto simp: date_re_def datetime_re_def)
  then show ?thesis
    by (auto simp: initializeView_described unified_type)
qed

text \<open>
  The theorem at a date, a date with a time, a plain text, and at the two documents of
  \<open>ex_number_text\<close>, whose unified entry \<open>K\<close> is labelled \<open>Number | Text\<close>.
\<close>

theorem C5_type_labels_witness:
  "re_test date_re ''2024-01-01''
   \<and> getPropertyType (JStr ''2024-01-01'' :: nat jsval) = ''Date''
   \<and> re_test datetime_re ''2024-01-01 10:30''
   \<and> getPropertyType (JStr ''2024-01-01 10:30'' :: nat jsval) = ''Date & time''
   \<and> \<not> re_test date_re ''soon'' \<and> \<not> re_test datetime_re ''soon''
   \<and> getPropertyType (JStr ''soon'' :: nat jsval) = ''Text''
   \<and> \<lparr>prop_id = 0, prop_key = ''K'', prop_value = JNull, prop_type = ''Number | Text'',
        prop_types = None\<rparr>
       \<in> set (propertyList (initializeView ex_number_text JNull (ex_state [0, 1])))
   \<and> join '' | '' (first_seen (map getPropertyType
         (key_values (all_entries ex_number_text (fileList (ex_state [0, 1]))) ''K'')))
       = ''Number | Text''"
proof -
  have d: "re_test date_re ''2024-01-01''"
    by code_simp
  have dt: "re_test datetime_re ''2024-01-01 10:30''"
    by code_simp
  have t: "\<not> re_test date_re ''soon''" "\<not> re_test datetime_re ''soon''"
    by code_simp+
  have mem: "\<lparr>prop_id = 0, prop_key = ''K'', prop_value = JNull, prop_type = ''Number | Text'',
        prop_types = None\<rparr>
       \<in> set (propertyList (initializeView ex_number_text JNull (ex_state [0, 1])))"
    by code_simp
  from d dt t mem show ?thesis
    using C5_type_labels[where str = "''2024-01-01''" and 'n = nat]
      C5_type_labels[where str = "''2024-01-01 10:30''" and 'n = nat]
      C5_type_labels[where str = "''soon''" and cache = ex_number_text and ph = JNull
        and s = "ex_state [0, 1]"]
    by fastforce
qed

text \<open>
  C5 as stated does not hold: a string of the form YYYY-MM-DD HH:MM is labelled
  \<open>Date & time\<close>, not \<open>Date & Time\<close>.
\<close>

theorem C5_counterexample:
  "getPropertyType (JStr ''2024-01-01 10:30'' :: nat jsval) = ''Date & time''
   \<and> getPropertyType (JStr ''2024-01-01 10:30'' :: nat jsval) \<noteq> ''Date & Time''"
  by (simp add: date_re_def datetime_re_def)

section \<open>Edit operations\<close>

lemma findIndex_Some:
  "findIndex P xs = Some j \<Longrightarrow> j < length xs \<and> P (xs ! j) \<and> (\<forall>i<j. \<not> P (xs ! i))"
proof (induction xs arbitrary: j)
  case Nil
  then show ?case by simp
next
  case (Cons x xs)
  show ?case
  proof (cases "P x")
    case True
    with Cons.prems show ?thesis by simp
  next
    case False
    with Cons.prems obtain i where i: "findIndex P xs = Some i" "j = Suc i"
      by (auto split: option.splits)
    from Cons.IH[OF i(1)] False i(2) show ?thesis
      by (auto simp: less_Suc_eq_0_disj)
  qed
qed

lemma findIndex_None: "findIndex P xs = None \<longleftrightarrow> (\<forall>x\<in>set xs. \<not> P x)"
  by (induction xs) (auto split: option.splits)

lemma list_ex_key: "list_ex (\<lambda>p. prop_key p = n) ps \<longleftrightarrow> n \<in> prop_key ` set ps"
  by (auto simp: list_ex_iff)

lemma distinct_remove_nth: "distinct xs \<Longrightarrow> distinct (take j xs @ drop (Suc j) xs)"
proof -
  assume d: "distinct xs"
  have "distinct (take j xs @ drop j xs)" using d by simp
  then have "set (take j xs) \<inter> set (drop j xs) = {}" by (simp only: distinct_append)
  moreover have "set (drop (Suc j) xs) \<subseteq> set (drop j xs)"
    by (metis drop_Suc set_drop_subset tl_drop drop_drop plus_1_eq_Suc)
  ultimately show ?thesis using d by (auto simp: distinct_append)
qed

lemma map_remove_nth: "map f (take j xs @ drop (Suc j) xs) = take j (map f xs) @ drop (Suc j) (map f xs)"
  by (simp add: take_map drop_map)

lemma mset_splice:
  "j < length xs \<Longrightarrow> mset (splice_insert t (xs ! j) (splice_remove j xs)) = mset xs"
proof -
  assume j: "j < length xs"
  let ?r = "splice_remove j xs"
  have "mset (splice_insert t (xs ! j) ?r) = mset (take t ?r @ drop t ?r) + {#xs ! j#}"
    unfolding splice_insert_def by (simp only: mset_append mset.simps) simp
  also have "\<dots> = mset ?r + {#xs ! j#}" by simp
  also have "\<dots> = mset (take j xs @ xs ! j # drop (Suc j) xs)"
    by (simp add: splice_remove_def)
  also have "\<dots> = mset xs" using j by (simp only: id_take_nth_drop[symmetric])
  finally show ?thesis .
qed

lemma onDrop_mset: "mset (propertyList (onDrop d t s)) = mset (propertyList s)"
  by (auto simp: onDrop_def mset_splice split: option.splits dest: findIndex_Some)

lemma distinct_keys_mset:
  "mset ps' = mset ps \<Longrightarrow> distinct (map prop_key ps') = distinct (map prop_key ps)"
proof -
  assume "mset ps' = mset ps"
  then have "mset (map prop_key ps') = mset (map prop_key ps)" by (metis mset_map)
  then show ?thesis by (rule mset_eq_imp_distinct_iff)
qed

lemma add_distinct:
  "distinct (map prop_key (propertyList s)) \<Longrightarrow>
     distinct (map prop_key (propertyList (addNewProperty ph ty s)))"
  by (auto simp: addNewProperty_def Let_def list_ex_key)

lemma rename_distinct:
  "distinct (map prop_key (propertyList s)) \<Longrightarrow>
     distinct (map prop_key (propertyList (onRename i name s)))"
  by (auto simp: onRename_def list_ex_key map_update distinct_list_update
      split: option.splits dest: findIndex_Some)

lemma delete_distinct:
  "distinct (map prop_key (propertyList s)) \<Longrightarrow>
     distinct (map prop_key (propertyList (onDelete i s)))"
proof (cases "findIndex (\<lambda>p. prop_id p = i) (propertyList s)")
  case None
  assume "distinct (map prop_key (propertyList s))"
  with None show ?thesis by (simp add: onDelete_def)
next
  case (Some j)
  assume "distinct (map prop_key (propertyList s))"
  then have "distinct (take j (map prop_key (propertyList s)) @ drop (Suc j) (map prop_key (propertyList s)))"
    by (rule distinct_remove_nth)
  with Some show ?thesis by (simp add: onDelete_def take_map drop_map)
qed

lemma drop_distinct:
  "distinct (map prop_key (propertyList s)) \<Longrightarrow>
     distinct (map prop_key (propertyList (onDrop d t s)))"
  using distinct_keys_mset[OF onDrop_mset] by blast

text \<open>
  C6. An Add whose trimmed name is empty or is the key of an entry, and a Rename whose
  new name is missing, empty or the key of an entry, return the state they were given
  (the operations have no failing branch); and whenever the keys of the working list are
  pairwise distinct, they still are after any Add, Rename, Delete or Reorder.
\<close>

theorem C6_invalid_edits_noop:
  "(trim (newAddName s) = [] \<or> trim (newAddName s) \<in> prop_key ` set (propertyList s)
      \<longrightarrow> addNewProperty ph ty s = s)
   \<and> onRename i None s = s
   \<and> (n = [] \<or> n \<in> prop_key ` set (propertyList s) \<longrightarrow> onRename i (Some n) s = s)
   \<and> (distinct (map prop_key (propertyList s)) \<longrightarrow>
        distinct (map prop_key (propertyList (addNewProperty ph ty s)))
        \<and> distinct (map prop_key (propertyList (onRename i name s)))
        \<and> distinct (map prop_key (propertyList (onDelete i s)))
        \<and> distinct (map prop_key (propertyList (onDrop d t s))))"
proof -
  have a: "trim (newAddName s) = [] \<or> trim (newAddName s) \<in> prop_key ` set (propertyList s)
      \<Longrightarrow> addNewProperty ph ty s = s"
    by (auto simp: addNewProperty_def Let_def list_ex_key)
  have r0: "onRename i None s = s"
    by (simp add: onRename_def split: option.splits)
  have r: "n = [] \<or> n \<in> prop_key ` set (propertyList s) \<Longrightarrow> onRename i (Some n) s = s"
    by (auto simp: onRename_def list_ex_key split: option.splits)
  show ?thesis
    using a r0 r add_distinct rename_distinct delete_distinct drop_distinct by blast
qed

text \<open>
  The theorem in the session over \<open>ex_movies\<close>: adding \<open>" Year "\<close> and renaming
  \<open>Year\<close> to \<open>Title\<close> change nothing, and the keys stay distinct under an Add of
  \<open>Score\<close>, a Rename of \<open>Year\<close> to \<open>Released\<close>, a Delete and a Reorder.
\<close>

theorem C6_invalid_edits_noop_witness:
  "trim (newAddName (onChangeAddInput '' Year '' ex_session))
     \<in> prop_key ` set (propertyList (onChangeAddInput '' Year '' ex_session))
   \<and> addNewProperty JNull ''Null'' (onChangeAddInput '' Year '' ex_session)
       = onChangeAddInput '' Year '' ex_session
   \<and> ''Title'' \<in> prop_key ` set (propertyList (onChangeAddInput '' Year '' ex_session))
   \<and> onRename 1 (Some ''Title'') (onChangeAddInput '' Year '' ex_session)
       = onChangeAddInput '' Year '' ex_session
   \<and> distinct (map prop_key (propertyList (onChangeAddInput ''Score'' ex_session)))
   \<and> map prop_key (propertyList (addNewProperty JNull ''Null'' (onChangeAddInput ''Score'' ex_session)))
       = [''Title'', ''Year'', ''Director'', ''Score'']
   \<and> distinct (map prop_key
         (propertyList (addNewProperty JNull ''Null'' (onChangeAddInput ''Score'' ex_session))))
   \<and> map prop_key (propertyList (onRename 1 (Some ''Released'') (onChangeAddInput ''Score'' ex_session)))
       = [''Title'', ''Released'', ''Director'']
   \<and> distinct (map prop_key
         (propertyList (onRename 1 (Some ''Released'') (onChangeAddInput ''Score'' ex_session))))
   \<and> distinct (map prop_key (propertyList (onDelete 1 (onChangeAddInput ''Score'' ex_session))))
   \<and> distinct (map prop_key
         (propertyList (onDrop (Some 0) (Some 2) (onChangeAddInput ''Score'' ex_session))))"
proof -
  let ?s = "onChangeAddInput '' Year '' ex_session"
  let ?t = "onChangeAddInput ''Score'' ex_session"
  have a: "trim (newAddName ?s) \<in> prop_key ` set (propertyList ?s)"
    by code_simp
  have r: "''Title'' \<in> prop_key ` set (propertyList ?s)"
    by code_simp
  have d: "distinct (map prop_key (propertyList ?t))"
    by code_simp
  have e1: "map prop_key (propertyList (addNewProperty JNull ''Null'' ?t))
       = [''Title'', ''Year'', ''Director'', ''Score'']"
    by code_simp
  have e2: "map prop_key (propertyList (onRename 1 (Some ''Released'') ?t))
       = [''Title'', ''Released'', ''Director'']"
    by code_simp
  show ?thesis
    using a r d e1 e2
      C6_invalid_edits_noop[where s = ?s and n = "''Title''" and ph = JNull
        and ty = "''Null''" and i = 1]
      C6_invalid_edits_noop[where s = ?t and ph = JNull and ty = "''Null''" and i = 1
        and name = "Some ''Released''" and d = "Some 0" and t = "Some 2"]
    by simp
qed

section \<open>The object written by the replay of main.ts\<close>

lemma obj_delete_filter: "obj_delete k obj = filter (\<lambda>kv. fst kv \<noteq> k) obj"
  by (simp add: obj_delete_def case_prod_unfold)

lemma clear_keys: "foldl (\<lambda>fm k. obj_delete k fm) obj ks = filter (\<lambda>kv. fst kv \<notin> set ks) obj"
proof (induction ks arbitrary: obj)
  case Nil
  show ?case by simp
next
  case (Cons k ks)
  have "foldl (\<lambda>fm k. obj_delete k fm) obj (k # ks)
      = filter (\<lambda>kv. fst kv \<notin> set ks) (obj_delete k obj)"
    by (simp only: foldl_Cons Cons.IH)
  also have "\<dots> = filter (\<lambda>kv. fst kv \<notin> set (k # ks)) obj"
    by (simp add: obj_delete_filter conj_commute)
  finally show ?case .
qed

lemma clear_all: "foldl (\<lambda>fm k. obj_delete k fm) obj (map fst obj) = []"
  by (simp add: clear_keys filter_empty_conv)

lemma set_insert_index: "set (insert_index n k v obj) = insert (k, v) (set obj)"
  by (induction obj) (auto split: option.splits if_splits)

lemma distinct_insert_index:
  "distinct (map fst obj) \<Longrightarrow> k \<notin> fst ` set obj \<Longrightarrow> distinct (map fst (insert_index n k v obj))"
proof (induction obj)
  case Nil
  show ?case by simp
next
  case (Cons kv obj)
  obtain k' v' where kv: "kv = (k', v')" by (cases kv)
  have "fst ` set (insert_index n k v obj) = insert k (fst ` set obj)"
    by (simp add: set_insert_index)
  with Cons show ?case
    by (auto simp: kv split: option.splits)
qed

lemma map_of_None_keys: "map_of obj k = None \<longleftrightarrow> k \<notin> fst ` set obj"
  by (simp add: map_of_eq_None_iff)

lemma keys_assign:
  "map fst (map (\<lambda>(k', v'). if k' = k then (k', v) else (k', v')) obj) = map fst obj"
  by (induction obj) auto

lemma set_assign:
  "(k, w) \<in> set obj \<Longrightarrow>
     set (map (\<lambda>(k', v'). if k' = k then (k', v) else (k', v')) obj)
       = insert (k, v) {kv \<in> set obj. fst kv \<noteq> k}"
proof -
  let ?g = "\<lambda>(k', v'). if k' = k then (k', v) else (k', v')"
  assume w: "(k, w) \<in> set obj"
  have "?g ` set obj = insert (k, v) {kv \<in> set obj. fst kv \<noteq> k}"
  proof (intro set_eqI iffI)
    fix x assume "x \<in> ?g ` set obj"
    then obtain y where y: "y \<in> set obj" "x = ?g y" by blast
    from y show "x \<in> insert (k, v) {kv \<in> set obj. fst kv \<noteq> k}"
      by (auto split: prod.splits if_splits)
  next
    fix x assume x: "x \<in> insert (k, v) {kv \<in> set obj. fst kv \<noteq> k}"
    show "x \<in> ?g ` set obj"
    proof (cases "x = (k, v)")
      case True
      have "?g (k, w) = (k, v)" by simp
      with w True show ?thesis by (metis (no_types, lifting) image_eqI)
    next
      case False
      with x have mem: "x \<in> set obj" and ne: "fst x \<noteq> k" by auto
      from ne have "?g x = x" by (simp add: case_prod_unfold)
      with mem show ?thesis by (metis (no_types, lifting) image_eqI)
    qed
  qed
  then show ?thesis by simp
qed

lemma set_define_own: "set (define_own k v obj) = insert (k, v) {kv \<in> set obj. fst kv \<noteq> k}"
proof (cases "map_of obj k = None")
  case True
  then have "k \<notin> fst ` set obj" by (simp add: map_of_None_keys)
  then have "{kv \<in> set obj. fst kv \<noteq> k} = set obj" by force
  with True show ?thesis
    by (auto simp: define_own_def set_insert_index split: option.splits)
next
  case False
  then obtain w where "(k, w) \<in> set obj"
    by (auto simp: map_of_None_keys)
  then have "set (map (\<lambda>(k', v'). if k' = k then (k', v) else (k', v')) obj)
       = insert (k, v) {kv \<in> set obj. fst kv \<noteq> k}"
    by (rule set_assign)
  moreover from False
  have "define_own k v obj = map (\<lambda>(k', v'). if k' = k then (k', v) else (k', v')) obj"
    by (simp add: define_own_def)
  ultimately show ?thesis by (simp only:)
qed

lemma distinct_define_own:
  "distinct (map fst obj) \<Longrightarrow> distinct (map fst (define_own k v obj))"
proof (cases "map_of obj k = None")
  case True
  assume "distinct (map fst obj)"
  with True show ?thesis
    by (auto simp: define_own_def map_of_None_keys distinct_insert_index split: option.splits)
next
  case False
  assume d: "distinct (map fst obj)"
  from False have "define_own k v obj = map (\<lambda>(k', v'). if k' = k then (k', v) else (k', v')) obj"
    by (simp add: define_own_def)
  with d show ?thesis by (simp only: keys_assign)
qed

lemma obj_set_other:
  "k \<noteq> ''__proto__'' \<Longrightarrow> obj_set k v ob = (define_own k v (fst ob), snd ob)"
  by (simp add: obj_set_def split: prod.splits)

lemma obj_set_proto:
  "map_of own ''__proto__'' = None \<Longrightarrow> fst (obj_set ''__proto__'' v (own, True)) = own"
  by (simp add: obj_set_def)

lemma distinct_obj_set:
  "distinct (map fst (fst ob)) \<Longrightarrow> distinct (map fst (fst (obj_set k v ob)))"
  by (cases ob) (simp add: obj_set_def distinct_define_own)

lemma writeFrontmatter_fold:
  "writeFrontmatter fl ps obj = fst (foldl (replay_step fl) ([], True) ps)"
  by (simp add: writeFrontmatter_def clear_all)

lemma replay_fold_snoc:
  "foldl (replay_step fl) ob (ps @ [p])
     = obj_set (prop_key p) (prop_value (found_or fl p)) (foldl (replay_step fl) ob ps)"
  by (simp only: foldl_append foldl_Cons foldl_Nil replay_step_def)

lemma writeFrontmatter_distinct: "distinct (map fst (writeFrontmatter fl ps obj))"
proof -
  have "distinct (map fst (fst (foldl (replay_step fl) ([], True) ps)))"
  proof (induction ps rule: rev_induct)
    case Nil
    show ?case by simp
  next
    case (snoc p ps)
    then show ?case by (simp only: replay_fold_snoc distinct_obj_set)
  qed
  then show ?thesis by (simp add: writeFrontmatter_fold)
qed

text \<open>
  With distinct keys the replay writes one own property for every entry but the one
  named \<open>__proto__\<close>: until that entry is reached the setter is in reach, so its
  assignment creates nothing.
\<close>

lemma replay_fold_set:
  "distinct (map prop_key ps) \<Longrightarrow>
     set (fst (foldl (replay_step fl) ([], True) ps))
       = (\<lambda>p. (prop_key p, prop_value (found_or fl p))) ` {p \<in> set ps. prop_key p \<noteq> ''__proto__''}
     \<and> (''__proto__'' \<notin> prop_key ` set ps \<longrightarrow> snd (foldl (replay_step fl) ([], True) ps))"
proof (induction ps rule: rev_induct)
  case Nil
  show ?case by simp
next
  case (snoc p ps)
  let ?pair = "\<lambda>p. (prop_key p, prop_value (found_or fl p))"
  let ?F = "foldl (replay_step fl) ([], True) ps"
  from snoc.prems have d: "distinct (map prop_key ps)"
    and fresh0: "prop_key p \<notin> prop_key ` set ps"
    by simp_all
  from snoc.IH[OF d] have IH: "set (fst ?F) = ?pair ` {q \<in> set ps. prop_key q \<noteq> ''__proto__''}"
    and IHs: "''__proto__'' \<notin> prop_key ` set ps \<Longrightarrow> snd ?F"
    by simp_all
  from fresh0 have fresh: "\<And>q. q \<in> set ps \<Longrightarrow> prop_key q \<noteq> prop_key p"
    by (metis imageI)
  show ?case
  proof (cases "prop_key p = ''__proto__''")
    case True
    with fresh0 have "snd ?F" by (simp add: IHs)
    then have F: "?F = (fst ?F, True)" by (cases ?F) simp
    have "''__proto__'' \<notin> fst ` set (fst ?F)"
      unfolding IH by force
    then have none: "map_of (fst ?F) ''__proto__'' = None"
      by (simp add: map_of_None_keys)
    have "fst (foldl (replay_step fl) ([], True) (ps @ [p])) = fst ?F"
      unfolding replay_fold_snoc True
      using obj_set_proto[OF none, of "prop_value (found_or fl p)"] F by simp
    moreover have "{q \<in> set (ps @ [p]). prop_key q \<noteq> ''__proto__''}
        = {q \<in> set ps. prop_key q \<noteq> ''__proto__''}"
      using True by auto
    ultimately show ?thesis
      using True by (simp add: IH)
  next
    case False
    have step: "foldl (replay_step fl) ([], True) (ps @ [p])
        = (define_own (prop_key p) (prop_value (found_or fl p)) (fst ?F), snd ?F)"
      unfolding replay_fold_snoc by (rule obj_set_other[OF False])
    have eq: "{kv \<in> ?pair ` {q \<in> set ps. prop_key q \<noteq> ''__proto__''}. fst kv \<noteq> prop_key p}
        = ?pair ` {q \<in> set ps. prop_key q \<noteq> ''__proto__''}"
      using fresh by auto
    have sp: "{q \<in> set (ps @ [p]). prop_key q \<noteq> ''__proto__''}
        = insert p {q \<in> set ps. prop_key q \<noteq> ''__proto__''}"
      using False by auto
    have "set (fst (foldl (replay_step fl) ([], True) (ps @ [p])))
        = insert (?pair p) (?pair ` {q \<in> set ps. prop_key q \<noteq> ''__proto__''})"
      by (simp only: step fst_conv set_define_own IH eq)
    moreover have "''__proto__'' \<notin> prop_key ` set (ps @ [p])
        \<longrightarrow> snd (foldl (replay_step fl) ([], True) (ps @ [p]))"
      unfolding step using IHs by simp
    ultimately show ?thesis
      by (simp only: sp image_insert simp_thms)
  qed
qed

lemma writeFrontmatter_set:
  "distinct (map prop_key ps) \<Longrightarrow>
     set (writeFrontmatter fl ps obj)
       = (\<lambda>p. (prop_key p, prop_value (found_or fl p))) ` {p \<in> set ps. prop_key p \<noteq> ''__proto__''}"
  using replay_fold_set[of ps fl] by (simp add: writeFrontmatter_fold)

lemma replay_fold_order:
  "distinct (map prop_key ps) \<Longrightarrow> \<forall>p\<in>set ps. array_index (prop_key p) = None \<Longrightarrow>
     fst (foldl (replay_step fl) ([], True) ps)
       = map (\<lambda>p. (prop_key p, prop_value (found_or fl p)))
           (filter (\<lambda>p. prop_key p \<noteq> ''__proto__'') ps)
     \<and> (''__proto__'' \<notin> prop_key ` set ps \<longrightarrow> snd (foldl (replay_step fl) ([], True) ps))"
proof (induction ps rule: rev_induct)
  case Nil
  show ?case by simp
next
  case (snoc p ps)
  let ?pair = "\<lambda>p. (prop_key p, prop_value (found_or fl p))"
  let ?F = "foldl (replay_step fl) ([], True) ps"
  let ?qs = "filter (\<lambda>p. prop_key p \<noteq> ''__proto__'') ps"
  from snoc.prems have d: "distinct (map prop_key ps)"
    and fresh0: "prop_key p \<notin> prop_key ` set ps"
    and ni: "array_index (prop_key p) = None"
    and nis: "\<forall>p\<in>set ps. array_index (prop_key p) = None"
    by simp_all
  from snoc.IH[OF d nis] have IH: "fst ?F = map ?pair ?qs"
    and IHs: "''__proto__'' \<notin> prop_key ` set ps \<Longrightarrow> snd ?F"
    by simp_all
  from fresh0 have fresh: "\<And>q. q \<in> set ps \<Longrightarrow> prop_key q \<noteq> prop_key p"
    by (metis imageI)
  show ?case
  proof (cases "prop_key p = ''__proto__''")
    case True
    with fresh0 have "snd ?F" by (simp add: IHs)
    then have F: "?F = (fst ?F, True)" by (cases ?F) simp
    have "''__proto__'' \<notin> fst ` set (fst ?F)"
      unfolding IH by force
    then have none: "map_of (fst ?F) ''__proto__'' = None"
      by (simp add: map_of_None_keys)
    have "fst (foldl (replay_step fl) ([], True) (ps @ [p])) = fst ?F"
      unfolding replay_fold_snoc True
      using obj_set_proto[OF none, of "prop_value (found_or fl p)"] F by simp
    then show ?thesis
      using True by (simp add: IH)
  next
    case False
    have step: "foldl (replay_step fl) ([], True) (ps @ [p])
        = (define_own (prop_key p) (prop_value (found_or fl p)) (fst ?F), snd ?F)"
      unfolding replay_fold_snoc by (rule obj_set_other[OF False])
    have none: "map_of (map ?pair ?qs) (prop_key p) = None"
      using fresh by (force simp: map_of_None_keys image_iff)
    have "define_own (prop_key p) (prop_value (found_or fl p)) (map ?pair ?qs)
        = map ?pair ?qs @ [?pair p]"
      by (simp add: define_own_def ni none)
    then show ?thesis
      unfolding step using False IHs by (simp add: IH)
  qed
qed

lemma writeFrontmatter_order:
  "distinct (map prop_key ps) \<Longrightarrow> \<forall>p\<in>set ps. array_index (prop_key p) = None \<Longrightarrow>
     writeFrontmatter fl ps obj
       = map (\<lambda>p. (prop_key p, prop_value (found_or fl p)))
           (filter (\<lambda>p. prop_key p \<noteq> ''__proto__'') ps)"
  using replay_fold_order[of ps fl] by (simp add: writeFrontmatter_fold)

section \<open>Snapshots and documents stay aligned\<close>

lemma batchWriteLoop_ok:
  "i + length files \<le> length fls \<Longrightarrow> distinct files \<Longrightarrow>
     batchWriteLoop fls ps i files store =
       Inr (\<lambda>f. if f \<in> set files
                 then writeFrontmatter (fls ! (i + index_of f files)) ps (store f)
                 else store f)"
proof (induction files arbitrary: i store)
  case Nil
  show ?case by simp
next
  case (Cons f0 files)
  from Cons.prems have i: "i < length fls" and le: "Suc i + length files \<le> length fls"
    and d: "distinct files" and nm: "f0 \<notin> set files"
    by simp_all
  let ?store = "store(f0 := writeFrontmatter (fls ! i) ps (store f0))"
  have "batchWriteLoop fls ps i (f0 # files) store = batchWriteLoop fls ps (Suc i) files ?store"
    using i by simp
  also have "\<dots> = Inr (\<lambda>f. if f \<in> set files
                 then writeFrontmatter (fls ! (Suc i + index_of f files)) ps (?store f)
                 else ?store f)"
    by (rule Cons.IH[OF le d])
  also have "(\<lambda>f. if f \<in> set files
                 then writeFrontmatter (fls ! (Suc i + index_of f files)) ps (?store f)
                 else ?store f)
      = (\<lambda>f. if f \<in> set (f0 # files)
                 then writeFrontmatter (fls ! (i + index_of f (f0 # files))) ps (store f)
                 else store f)"
    using nm by (auto simp: fun_eq_iff)
  finally show ?case .
qed

lemma snapshots_nth:
  "i < length files \<Longrightarrow>
     snapshots cache u0 files ! i
       = map (snapshot_entry u0 (map fst (all_entries cache files))) (entries cache (files ! i))"
  by (simp add: snapshots_def)

lemma snapshot_pairs:
  "map (\<lambda>fm. (prop_key fm, prop_value fm)) (map (snapshot_entry u0 keys) es) = es"
  by (induction es) (simp_all add: snapshot_entry_def)

lemma edits_frame:
  "frontmatterLists (addNewProperty ph ty t) = frontmatterLists t"
  "fileList (addNewProperty ph ty t) = fileList t"
  "frontmatterLists (onRename i name t) = frontmatterLists t"
  "fileList (onRename i name t) = fileList t"
  "frontmatterLists (onDelete i t) = frontmatterLists t"
  "fileList (onDelete i t) = fileList t"
  "frontmatterLists (onDrop d k t) = frontmatterLists t"
  "fileList (onDrop d k t) = fileList t"
  by (simp_all add: addNewProperty_def onRename_def onDelete_def onDrop_def Let_def
      split: option.splits)

text \<open>
  C10. \<open>initializeView\<close> empties the store and aggregation appends one snapshot for each
  selected file, in the order of the selection: the store is \<open>snapshots\<close> of the
  selection whatever it held before, it is as long as the file list, the snapshot at
  position \<open>i\<close> lists the keys and values of the metadata block of file \<open>i\<close>, and it is
  empty when the file has no block. Add, Rename, Delete and Reorder leave the store and
  the file list as they are. The replay processes the file at position \<open>i\<close> with the
  snapshot at position \<open>i\<close>.
\<close>

theorem C10_snapshot_alignment:
  "frontmatterLists (initializeView cache ph s) = snapshots cache (next_uuid s) (fileList s)
   \<and> fileList (initializeView cache ph s) = fileList s
   \<and> length (frontmatterLists (initializeView cache ph s))
       = length (fileList (initializeView cache ph s))
   \<and> (\<forall>i < length (fileList s).
         map (\<lambda>fm. (prop_key fm, prop_value fm)) (frontmatterLists (initializeView cache ph s) ! i)
           = entries cache (fileList s ! i))
   \<and> (\<forall>i < length (fileList s).
         cache (fileList s ! i) = None \<longrightarrow> frontmatterLists (initializeView cache ph s) ! i = [])
   \<and> frontmatterLists (addNewProperty ph' ty t) = frontmatterLists t
   \<and> fileList (addNewProperty ph' ty t) = fileList t
   \<and> frontmatterLists (onRename j name t) = frontmatterLists t
   \<and> fileList (onRename j name t) = fileList t
   \<and> frontmatterLists (onDelete j t) = frontmatterLists t
   \<and> fileList (onDelete j t) = fileList t
   \<and> frontmatterLists (onDrop d k t) = frontmatterLists t
   \<and> fileList (onDrop d k t) = fileList t
   \<and> (distinct (fileList t) \<and> length (frontmatterLists t) = length (fileList t) \<longrightarrow>
        batchWriteFrontmatter t store =
          Inr (\<lambda>f. if f \<in> set (fileList t)
                    then writeFrontmatter (frontmatterLists t ! index_of f (fileList t))
                           (propertyList t) (store f)
                    else store f))"
proof -
  have loop: "batchWriteFrontmatter t store =
          Inr (\<lambda>f. if f \<in> set (fileList t)
                    then writeFrontmatter (frontmatterLists t ! index_of f (fileList t))
                           (propertyList t) (store f)
                    else store f)"
    if "distinct (fileList t)" "length (frontmatterLists t) = length (fileList t)"
    using batchWriteLoop_ok[of 0 "fileList t" "frontmatterLists t" "propertyList t" store] that
    by (simp add: batchWriteFrontmatter_def cong: if_cong)
  have absent: "frontmatterLists (initializeView cache ph s) ! i = []"
    if "i < length (fileList s)" "cache (fileList s ! i) = None" for i
    using that by (simp add: initializeView_described snapshots_nth entries_def)
  have pairs: "map (\<lambda>fm. (prop_key fm, prop_value fm)) (frontmatterLists (initializeView cache ph s) ! i)
           = entries cache (fileList s ! i)" if "i < length (fileList s)" for i
  proof -
    have "frontmatterLists (initializeView cache ph s) ! i
        = map (snapshot_entry (next_uuid s) (map fst (all_entries cache (fileList s))))
            (entries cache (fileList s ! i))"
      using that by (simp add: initializeView_described snapshots_nth)
    then show ?thesis by (simp only: snapshot_pairs)
  qed
  have len: "length (frontmatterLists (initializeView cache ph s))
       = length (fileList (initializeView cache ph s))"
    by (simp add: initializeView_described snapshots_def)
  show ?thesis
    using loop absent pairs len
    by (simp add: edits_frame) (simp add: initializeView_described)
qed

text \<open>
  The theorem in the session over \<open>ex_movies\<close>: four files, four snapshots, the second
  with the three pairs of the second document, the fourth empty.
\<close>

theorem C10_snapshot_alignment_witness:
  "length (frontmatterLists ex_session) = 4
   \<and> length (fileList ex_session) = 4
   \<and> (1::nat) < length (fileList (ex_state [0, 1, 2, 3]))
   \<and> map (\<lambda>fm. (prop_key fm, prop_value fm)) (frontmatterLists ex_session ! 1)
       = [(''Title'', JStr ''Heat''), (''Year'', JNum 1995), (''Director'', JStr ''Mann'')]
   \<and> entries ex_movies (fileList (ex_state [0, 1, 2, 3]) ! 1)
       = [(''Title'', JStr ''Heat''), (''Year'', JNum 1995), (''Director'', JStr ''Mann'')]
   \<and> (3::nat) < length (fileList (ex_state [0, 1, 2, 3]))
   \<and> ex_movies (fileList (ex_state [0, 1, 2, 3]) ! 3) = None
   \<and> frontmatterLists ex_session ! 3 = []
   \<and> distinct (fileList ex_session)
   \<and> batchWriteFrontmatter ex_session (\<lambda>f. []) =
        Inr (\<lambda>f. if f \<in> set (fileList ex_session)
                  then writeFrontmatter (frontmatterLists ex_session ! index_of f (fileList ex_session))
                         (propertyList ex_session) []
                  else [])"
proof -
  have a: "(1::nat) < length (fileList (ex_state [0, 1, 2, 3]))"
    "(3::nat) < length (fileList (ex_state [0, 1, 2, 3]))"
    by (simp_all add: ex_state_def)
  have b: "ex_movies (fileList (ex_state [0, 1, 2, 3]) ! 3) = None"
    by code_simp
  have c: "entries ex_movies (fileList (ex_state [0, 1, 2, 3]) ! 1)
       = [(''Title'', JStr ''Heat''), (''Year'', JNum 1995), (''Director'', JStr ''Mann'')]"
    by code_simp
  have d: "distinct (fileList ex_session)" "length (fileList ex_session) = 4"
    by code_simp+
  note T = C10_snapshot_alignment[where cache = ex_movies and ph = JNull
      and s = "ex_state [0, 1, 2, 3]" and t = ex_session and store = "\<lambda>f. []"
      and ph' = JNull and ty = "[]" and j = 0 and name = None and d = None and k = None,
      folded ex_session_def]
  from T have len: "length (frontmatterLists ex_session) = length (fileList ex_session)"
    by blast
  from T a(1) have p1: "map (\<lambda>fm. (prop_key fm, prop_value fm)) (frontmatterLists ex_session ! 1)
       = entries ex_movies (fileList (ex_state [0, 1, 2, 3]) ! 1)"
    by blast
  from T a(2) b have p3: "frontmatterLists ex_session ! 3 = []"
    by blast
  from T d(1) len have w: "batchWriteFrontmatter ex_session (\<lambda>f. []) =
        Inr (\<lambda>f. if f \<in> set (fileList ex_session)
                  then writeFrontmatter (frontmatterLists ex_session ! index_of f (fileList ex_session))
                         (propertyList ex_session) []
                  else [])"
    by blast
  show ?thesis
    using a b c d len p1 p3 w by (simp only: simp_thms)
qed

section \<open>Reorder\<close>

lemma splice_insert_nth: "splice_insert t x r ! min t (length r) = x"
proof (cases "t \<le> length r")
  case True
  then have "min t (length r) = length (take t r)" by simp
  then show ?thesis
    unfolding splice_insert_def by (metis append_Cons nth_append_length)
next
  case False
  then show ?thesis by (simp add: splice_insert_def min_def)
qed

lemma splice_remove_insert: "splice_remove (min t (length r)) (splice_insert t x r) = r"
proof (cases "t \<le> length r")
  case True
  then have m: "min t (length r) = t" by simp
  from True have "take t (take t r @ x # drop t r) = take t r"
    by simp
  moreover from True have "drop (Suc t) (take t r @ x # drop t r) = drop t r"
    by simp
  ultimately show ?thesis
    by (simp add: splice_remove_def splice_insert_def m)
next
  case False
  then show ?thesis by (simp add: splice_remove_def splice_insert_def min_def)
qed

lemma error_only: "(e :: error) = TypeError"
  by (cases e) simp

lemma mapE_all:
  "mapE f xs = (if \<forall>x\<in>set xs. \<exists>y. f x = Inr y then Inr (map (\<lambda>x. projr (f x)) xs) else Inl TypeError)"
proof (induction xs)
  case Nil
  show ?case by simp
next
  case (Cons x xs)
  show ?case
  proof (cases "f x")
    case (Inl e)
    then show ?thesis by (auto simp: error_only[of e])
  next
    case (Inr y)
    with Cons show ?thesis by (auto split: sum.splits)
  qed
qed

lemma mapE_mset:
  "mset xs' = mset xs \<Longrightarrow> map_sum id mset (mapE f xs') = map_sum id mset (mapE f xs)"
proof -
  assume m: "mset xs' = mset xs"
  then have "set xs' = set xs" by (rule mset_eq_setD)
  moreover from m have "mset (map (\<lambda>x. projr (f x)) xs') = mset (map (\<lambda>x. projr (f x)) xs)"
    by (metis mset_map)
  ultimately show ?thesis by (simp add: mapE_all)
qed

text \<open>
  C7. A Reorder of an identifier that occurs in the working list (at position \<open>j\<close>, the
  first that carries it) keeps the multiset of entries: the dragged entry stands at the
  target position (the last position when the target lies beyond it), and the list
  without it is the old list without it, so the other entries keep their order; the
  snapshots are untouched. A replay before and after writes the same set of pairs
  (main.ts, for a working list with distinct keys) and the same lines up to their order
  (earlier revision).
\<close>

theorem C7_reorder_permutation:
  assumes "findIndex (\<lambda>p. prop_id p = d) (propertyList s) = Some j"
  shows "mset (propertyList (onDrop (Some d) (Some t) s)) = mset (propertyList s)
    \<and> propertyList (onDrop (Some d) (Some t) s) ! min t (length (propertyList s) - 1)
        = propertyList s ! j
    \<and> splice_remove (min t (length (propertyList s) - 1)) (propertyList (onDrop (Some d) (Some t) s))
        = splice_remove j (propertyList s)
    \<and> frontmatterLists (onDrop (Some d) (Some t) s) = frontmatterLists s
    \<and> (distinct (map prop_key (propertyList s)) \<longrightarrow>
         set (writeFrontmatter fl (propertyList (onDrop (Some d) (Some t) s)) obj)
           = set (writeFrontmatter fl (propertyList s) obj))
    \<and> map_sum id mset (renderList H flo (propertyList (onDrop (Some d) (Some t) s)))
        = map_sum id mset (renderList H flo (propertyList s))"
proof -
  let ?ps = "propertyList s" and ?ps' = "propertyList (onDrop (Some d) (Some t) s)"
  from findIndex_Some[OF assms] have j: "j < length ?ps" by simp
  have m: "mset ?ps' = mset ?ps" by (rule onDrop_mset)
  have lr: "length (splice_remove j ?ps) = length ?ps - 1"
    using j by (simp add: splice_remove_def)
  have pos: "?ps' ! min t (length ?ps - 1) = ?ps ! j
      \<and> splice_remove (min t (length ?ps - 1)) ?ps' = splice_remove j ?ps"
  proof (cases "j = t")
    case True
    with j have "min t (length ?ps - 1) = j" by simp
    with True assms show ?thesis by (simp add: onDrop_def)
  next
    case False
    with assms have "?ps' = splice_insert t (?ps ! j) (splice_remove j ?ps)"
      by (simp add: onDrop_def)
    then show ?thesis
      using splice_insert_nth[of t "?ps ! j" "splice_remove j ?ps"]
        splice_remove_insert[of t "splice_remove j ?ps" "?ps ! j"]
      by (simp add: lr)
  qed
  have w: "set (writeFrontmatter fl ?ps' obj) = set (writeFrontmatter fl ?ps obj)"
    if dk: "distinct (map prop_key ?ps)"
  proof -
    from distinct_keys_mset[OF m] dk have dk': "distinct (map prop_key ?ps')" by blast
    from m have "set ?ps' = set ?ps" by (rule mset_eq_setD)
    then show ?thesis
      by (simp only: writeFrontmatter_set[OF dk] writeFrontmatter_set[OF dk'])
  qed
  have r: "map_sum id mset (renderList H flo ?ps') = map_sum id mset (renderList H flo ?ps)"
    unfolding renderList_def by (rule mapE_mset[OF m])
  have f: "frontmatterLists (onDrop (Some d) (Some t) s) = frontmatterLists s"
    by (rule edits_frame)
  from m pos w r f show ?thesis by blast
qed

text \<open>
  The theorem in the session over \<open>ex_movies\<close>: Title is dragged from the first to the
  third row; the second document is written with the same three pairs in the new order.
\<close>

theorem C7_reorder_permutation_witness:
  "findIndex (\<lambda>p. prop_id p = 0) (propertyList ex_session) = Some 0
   \<and> map prop_key (propertyList ex_session) = [''Title'', ''Year'', ''Director'']
   \<and> map prop_key (propertyList (onDrop (Some 0) (Some 2) ex_session))
       = [''Year'', ''Director'', ''Title'']
   \<and> mset (propertyList (onDrop (Some 0) (Some 2) ex_session)) = mset (propertyList ex_session)
   \<and> propertyList (onDrop (Some 0) (Some 2) ex_session) ! 2 = propertyList ex_session ! 0
   \<and> distinct (map prop_key (propertyList ex_session))
   \<and> writeFrontmatter (frontmatterLists ex_session ! 1) (propertyList ex_session) []
       = [(''Title'', JStr ''Heat''), (''Year'', JNum 1995), (''Director'', JStr ''Mann'')]
   \<and> writeFrontmatter (frontmatterLists ex_session ! 1)
         (propertyList (onDrop (Some 0) (Some 2) ex_session)) []
       = [(''Year'', JNum 1995), (''Director'', JStr ''Mann''), (''Title'', JStr ''Heat'')]
   \<and> set (writeFrontmatter (frontmatterLists ex_session ! 1)
         (propertyList (onDrop (Some 0) (Some 2) ex_session)) [])
       = set (writeFrontmatter (frontmatterLists ex_session ! 1) (propertyList ex_session) [])"
proof -
  have j: "findIndex (\<lambda>p. prop_id p = 0) (propertyList ex_session) = Some 0"
    by code_simp
  have k: "map prop_key (propertyList ex_session) = [''Title'', ''Year'', ''Director'']"
    "map prop_key (propertyList (onDrop (Some 0) (Some 2) ex_session))
       = [''Year'', ''Director'', ''Title'']"
    by code_simp+
  have d: "distinct (map prop_key (propertyList ex_session))"
    by (simp add: k)
  have l: "min 2 (length (propertyList ex_session) - 1) = 2"
    using arg_cong[OF k(1), of length] by simp
  have w: "writeFrontmatter (frontmatterLists ex_session ! 1) (propertyList ex_session) []
       = [(''Title'', JStr ''Heat''), (''Year'', JNum 1995), (''Director'', JStr ''Mann'')]"
    "writeFrontmatter (frontmatterLists ex_session ! 1)
         (propertyList (onDrop (Some 0) (Some 2) ex_session)) []
       = [(''Year'', JNum 1995), (''Director'', JStr ''Mann''), (''Title'', JStr ''Heat'')]"
    by code_simp+
  note T = C7_reorder_permutation[OF j, where t = 2 and fl = "frontmatterLists ex_session ! 1"
      and obj = "[]" and H = "\<lparr>numToString = (\<lambda>n. []), dateToString = (\<lambda>n. [])\<rparr>" and flo = None]
  from T d l have
    "mset (propertyList (onDrop (Some 0) (Some 2) ex_session)) = mset (propertyList ex_session)"
    "propertyList (onDrop (Some 0) (Some 2) ex_session) ! 2 = propertyList ex_session ! 0"
    "set (writeFrontmatter (frontmatterLists ex_session ! 1)
         (propertyList (onDrop (Some 0) (Some 2) ex_session)) [])
       = set (writeFrontmatter (frontmatterLists ex_session ! 1) (propertyList ex_session) [])"
    by (metis (no_types, lifting))+
  with j k d w show ?thesis by (simp only: simp_thms)
qed

section \<open>Round trip\<close>

lemma find_snapshot:
  "k \<in> set keys \<Longrightarrow> fst ` set es \<subseteq> set keys \<Longrightarrow>
     find (\<lambda>fm. prop_id fm = key_id u0 keys k) (map (snapshot_entry u0 keys) es)
       = map_option (\<lambda>v. snapshot_entry u0 keys (k, v)) (map_of es k)"
proof (induction es)
  case Nil
  show ?case by simp
next
  case (Cons kv es)
  obtain k' v' where kv: "kv = (k', v')" by (cases kv)
  from Cons.prems have k': "k' \<in> set keys" and sub: "fst ` set es \<subseteq> set keys"
    by (auto simp: kv)
  have "key_id u0 keys k' = key_id u0 keys k \<longleftrightarrow> k' = k"
    using key_id_inj[OF k', of u0 k] by auto
  then show ?case
    using Cons.IH[OF Cons.prems(1) sub]
    by (auto simp: kv snapshot_entry_def)
qed

lemma entries_subset: "f \<in> set files \<Longrightarrow> set (entries cache f) \<subseteq> set (all_entries cache files)"
  by (auto simp: all_entries_def)

lemma unified_keys: "map prop_key (unified ph u0 es) = first_seen (map fst es)"
  by (simp add: unified_def comp_def)

lemma unified_mem:
  "p \<in> set (unified ph u0 es) \<Longrightarrow>
     prop_key p \<in> fst ` set es \<and> prop_id p = key_id u0 (map fst es) (prop_key p) \<and> prop_value p = ph"
  by (force simp: unified_def)

lemma found_value:
  assumes p: "p \<in> set (unified ph u0 (all_entries cache files))" and f: "f \<in> set files"
  shows "prop_value (found_or (map (snapshot_entry u0 (map fst (all_entries cache files))) (entries cache f)) p)
           = resolve cache ph f (prop_key p)"
proof -
  let ?keys = "map fst (all_entries cache files)"
  from unified_mem[OF p] have k: "prop_key p \<in> set ?keys"
    and i: "prop_id p = key_id u0 ?keys (prop_key p)" and v: "prop_value p = ph"
    by simp_all
  have sub: "fst ` set (entries cache f) \<subseteq> set ?keys"
    using entries_subset[OF f, of cache] by auto
  show ?thesis
    unfolding found_or_def i find_snapshot[OF k sub] resolve_def
    by (cases "map_of (entries cache f) (prop_key p)") (simp_all add: v snapshot_entry_def)
qed

lemma replay_pairs:
  assumes "i < length (fileList s)"
  shows "set (writeFrontmatter (frontmatterLists (initializeView cache ph s) ! i)
                (propertyList (initializeView cache ph s)) obj)
           = (\<lambda>k. (k, resolve cache ph (fileList s ! i) k))
               ` (fst ` set (all_entries cache (fileList s)) - {''__proto__''})"
proof -
  let ?es = "all_entries cache (fileList s)" and ?f = "fileList s ! i"
  let ?ps = "unified ph (next_uuid s) ?es"
  let ?fl = "map (snapshot_entry (next_uuid s) (map fst ?es)) (entries cache ?f)"
  let ?qs = "{p \<in> set ?ps. prop_key p \<noteq> ''__proto__''}"
  have f: "?f \<in> set (fileList s)" using assms by simp
  have d: "distinct (map prop_key ?ps)" by (simp add: unified_keys)
  have "set (writeFrontmatter ?fl ?ps obj) = (\<lambda>p. (prop_key p, prop_value (found_or ?fl p))) ` ?qs"
    by (rule writeFrontmatter_set[OF d])
  also have "\<dots> = (\<lambda>p. (prop_key p, resolve cache ph ?f (prop_key p))) ` ?qs"
    by (rule image_cong[OF refl]) (simp add: found_value[OF _ f])
  also have "\<dots> = (\<lambda>k. (k, resolve cache ph ?f k)) ` prop_key ` ?qs"
    by (simp add: image_image)
  also have "prop_key ` ?qs = prop_key ` set ?ps - {''__proto__''}"
    by auto
  also have "prop_key ` set ?ps = fst ` set ?es"
    using arg_cong[OF unified_keys[of ph "next_uuid s" ?es], of set] by simp
  finally show ?thesis
    using assms by (simp add: initializeView_described snapshots_nth)
qed

lemma replay_order:
  assumes "i < length (fileList s)"
    and ni: "\<forall>k \<in> fst ` set (all_entries cache (fileList s)). array_index k = None"
  shows "writeFrontmatter (frontmatterLists (initializeView cache ph s) ! i)
                (propertyList (initializeView cache ph s)) obj
           = map (\<lambda>k. (k, resolve cache ph (fileList s ! i) k))
               (filter (\<lambda>k. k \<noteq> ''__proto__'')
                  (first_seen (map fst (all_entries cache (fileList s)))))"
proof -
  let ?es = "all_entries cache (fileList s)" and ?f = "fileList s ! i"
  let ?ps = "unified ph (next_uuid s) ?es"
  let ?fl = "map (snapshot_entry (next_uuid s) (map fst ?es)) (entries cache ?f)"
  have f: "?f \<in> set (fileList s)" using assms by simp
  have d: "distinct (map prop_key ?ps)" by (simp add: unified_keys)
  have n: "\<forall>p\<in>set ?ps. array_index (prop_key p) = None"
    using ni unified_mem[of _ ph "next_uuid s" ?es] by blast
  let ?qs = "filter (\<lambda>p. prop_key p \<noteq> ''__proto__'') ?ps"
  have "writeFrontmatter ?fl ?ps obj = map (\<lambda>p. (prop_key p, prop_value (found_or ?fl p))) ?qs"
    by (rule writeFrontmatter_order[OF d n])
  also have "\<dots> = map (\<lambda>p. (prop_key p, resolve cache ph ?f (prop_key p))) ?qs"
    by (rule map_cong[OF refl]) (simp add: found_value[OF _ f])
  also have "\<dots> = map (\<lambda>k. (k, resolve cache ph ?f k)) (map prop_key ?qs)"
    by (simp add: comp_def)
  also have "map prop_key ?qs = filter (\<lambda>k. k \<noteq> ''__proto__'') (map prop_key ?ps)"
    by (simp add: filter_map comp_def)
  finally show ?thesis
    using assms by (simp add: initializeView_described snapshots_nth unified_keys)
qed

lemma resolve_own:
  assumes "distinct (map fst (entries cache f))"
  shows "(\<lambda>k. (k, resolve cache ph f k)) ` fst ` set (entries cache f) = set (entries cache f)"
proof (intro set_eqI iffI)
  fix x assume "x \<in> (\<lambda>k. (k, resolve cache ph f k)) ` fst ` set (entries cache f)"
  then obtain k v where kv: "(k, v) \<in> set (entries cache f)" and x: "x = (k, resolve cache ph f k)"
    by auto
  from assms kv have "map_of (entries cache f) k = Some v" by simp
  with kv x show "x \<in> set (entries cache f)" by (simp add: resolve_def)
next
  fix x assume x: "x \<in> set (entries cache f)"
  obtain k v where xk: "x = (k, v)" by (cases x)
  from assms x have "map_of (entries cache f) k = Some v" by (simp add: xk)
  then have "x = (k, resolve cache ph f k)" by (simp add: resolve_def xk)
  moreover from x have "k \<in> fst ` set (entries cache f)" by (force simp: xk)
  ultimately show "x \<in> (\<lambda>k. (k, resolve cache ph f k)) ` fst ` set (entries cache f)"
    by blast
qed

lemma resolve_other:
  "k \<notin> fst ` set (entries cache f) \<Longrightarrow> resolve cache ph f k = ph"
  by (simp add: resolve_def map_of_None_keys[symmetric])

lemma roundtrip_proto:
  assumes "i < length (fileList s)"
  shows "map_of (roundtrip cache ph s i obj) ''__proto__'' = None"
proof -
  have "''__proto__'' \<notin> fst ` set (roundtrip cache ph s i obj)"
    unfolding roundtrip_def replay_pairs[OF assms(1)] by force
  then show ?thesis by (simp add: map_of_None_keys)
qed

text \<open>
  C3, as the code has it. Aggregating, editing nothing and replaying writes for document
  \<open>i\<close> one pair for every key of the unified list other than \<open>__proto__\<close>, with
  distinct keys: the document's own value where it has the key, the placeholder
  (\<open>null\<close> in main.ts) where it has not. So every original pair whose key is not
  \<open>__proto__\<close> is written with its value unchanged and none of them is removed or
  altered, and the pairs that are added are those of the keys only other documents have;
  these original pairs come back exactly when the document has every key of the
  selection. When no key is an array index the pairs stand in unified first-seen order.
  The assignment to \<open>__proto__\<close> runs the setter of \<open>Object.prototype\<close>, so no pair
  is written under that name.
\<close>

theorem C3_round_trip:
  assumes "i < length (fileList s)"
  shows "distinct (map fst (roundtrip cache ph s i obj))
    \<and> set (roundtrip cache ph s i obj)
        = (\<lambda>k. (k, resolve cache ph (fileList s ! i) k))
            ` (fst ` set (all_entries cache (fileList s)) - {''__proto__''})
    \<and> (distinct (map fst (entries cache (fileList s ! i))) \<longrightarrow>
         set (roundtrip cache ph s i obj)
           = {kv \<in> set (entries cache (fileList s ! i)). fst kv \<noteq> ''__proto__''}
             \<union> (\<lambda>k. (k, ph)) ` (fst ` set (all_entries cache (fileList s))
                                - fst ` set (entries cache (fileList s ! i)) - {''__proto__''}))
    \<and> (distinct (map fst (entries cache (fileList s ! i)))
         \<and> fst ` set (all_entries cache (fileList s)) \<subseteq> fst ` set (entries cache (fileList s ! i)) \<longrightarrow>
         set (roundtrip cache ph s i obj)
           = {kv \<in> set (entries cache (fileList s ! i)). fst kv \<noteq> ''__proto__''})
    \<and> ((\<forall>k \<in> fst ` set (all_entries cache (fileList s)). array_index k = None) \<longrightarrow>
         roundtrip cache ph s i obj
           = map (\<lambda>k. (k, resolve cache ph (fileList s ! i) k))
               (filter (\<lambda>k. k \<noteq> ''__proto__'')
                  (first_seen (map fst (all_entries cache (fileList s))))))
    \<and> map_of (roundtrip cache ph s i obj) ''__proto__'' = None"
proof -
  let ?f = "fileList s ! i" and ?all = "fst ` set (all_entries cache (fileList s))"
  let ?own = "fst ` set (entries cache (fileList s ! i))"
  let ?r = "\<lambda>k. (k, resolve cache ph ?f k)"
  let ?P = "{''__proto__''}"
  have f: "?f \<in> set (fileList s)" using assms by simp
  have sub: "?own \<subseteq> ?all" using entries_subset[OF f, of cache] by auto
  have d: "distinct (map fst (roundtrip cache ph s i obj))"
    by (simp add: roundtrip_def writeFrontmatter_distinct)
  have p: "set (roundtrip cache ph s i obj) = ?r ` (?all - ?P)"
    unfolding roundtrip_def by (rule replay_pairs[OF assms])
  have u: "?r ` (?all - ?P)
      = {kv \<in> set (entries cache ?f). fst kv \<noteq> ''__proto__''} \<union> (\<lambda>k. (k, ph)) ` (?all - ?own - ?P)"
    if dist: "distinct (map fst (entries cache ?f))"
  proof -
    have "?all - ?P = (?own - ?P) \<union> (?all - ?own - ?P)" using sub by blast
    then have "?r ` (?all - ?P) = ?r ` (?own - ?P) \<union> ?r ` (?all - ?own - ?P)"
      by (metis image_Un)
    moreover have "?r ` (?own - ?P) = {kv \<in> ?r ` ?own. fst kv \<noteq> ''__proto__''}"
      by auto
    moreover have "?r ` ?own = set (entries cache ?f)"
      by (rule resolve_own[OF dist])
    moreover have "?r ` (?all - ?own - ?P) = (\<lambda>k. (k, ph)) ` (?all - ?own - ?P)"
      by (rule image_cong[OF refl]) (simp add: resolve_other)
    ultimately show ?thesis by (simp only:)
  qed
  have e: "?r ` (?all - ?P) = {kv \<in> set (entries cache ?f). fst kv \<noteq> ''__proto__''}"
    if "distinct (map fst (entries cache ?f))" "?all \<subseteq> ?own"
  proof -
    from that(2) have "?all - ?own - ?P = {}" by blast
    with u[OF that(1)] show ?thesis by simp
  qed
  have ord: "roundtrip cache ph s i obj
      = map ?r (filter (\<lambda>k. k \<noteq> ''__proto__'') (first_seen (map fst (all_entries cache (fileList s)))))"
    if "\<forall>k \<in> ?all. array_index k = None"
    unfolding roundtrip_def by (rule replay_order[OF assms that])
  have n: "map_of (roundtrip cache ph s i obj) ''__proto__'' = None"
    by (rule roundtrip_proto[OF assms])
  show ?thesis
  proof (intro conjI impI)
    show "distinct (map fst (roundtrip cache ph s i obj))" by (rule d)
    show "set (roundtrip cache ph s i obj) = ?r ` (?all - ?P)" by (rule p)
    show "set (roundtrip cache ph s i obj)
           = {kv \<in> set (entries cache ?f). fst kv \<noteq> ''__proto__''}
             \<union> (\<lambda>k. (k, ph)) ` (?all - ?own - ?P)"
      if "distinct (map fst (entries cache ?f))"
      using p u[OF that] by (simp only:)
    show "set (roundtrip cache ph s i obj) = {kv \<in> set (entries cache ?f). fst kv \<noteq> ''__proto__''}"
      if "distinct (map fst (entries cache ?f)) \<and> ?all \<subseteq> ?own"
      using p e that by (simp only:)
    show "roundtrip cache ph s i obj
           = map ?r (filter (\<lambda>k. k \<noteq> ''__proto__'')
                  (first_seen (map fst (all_entries cache (fileList s)))))"
      if "\<forall>k \<in> ?all. array_index k = None"
      by (rule ord[OF that])
    show "map_of (roundtrip cache ph s i obj) ''__proto__'' = None" by (rule n)
  qed
qed

text \<open>
  The theorem at the second document of \<open>ex_movies\<close>, which has every key of the
  selection: its three pairs come back, whatever the metadata object held before.
\<close>

theorem C3_round_trip_witness:
  "(1::nat) < length (fileList (ex_state [0, 1, 2, 3]))
   \<and> distinct (map fst (entries ex_movies (fileList (ex_state [0, 1, 2, 3]) ! 1)))
   \<and> fst ` set (all_entries ex_movies (fileList (ex_state [0, 1, 2, 3])))
       \<subseteq> fst ` set (entries ex_movies (fileList (ex_state [0, 1, 2, 3]) ! 1))
   \<and> list_all (\<lambda>k. array_index k = None)
       (map fst (all_entries ex_movies (fileList (ex_state [0, 1, 2, 3]))))
   \<and> set (roundtrip ex_movies JNull (ex_state [0, 1, 2, 3]) 1 [(''Stale'', JBool True)])
       = {kv \<in> set (entries ex_movies (fileList (ex_state [0, 1, 2, 3]) ! 1)). fst kv \<noteq> ''__proto__''}
   \<and> {kv \<in> set (entries ex_movies (fileList (ex_state [0, 1, 2, 3]) ! 1)). fst kv \<noteq> ''__proto__''}
       = set (entries ex_movies (fileList (ex_state [0, 1, 2, 3]) ! 1))
   \<and> roundtrip ex_movies JNull (ex_state [0, 1, 2, 3]) 1 [(''Stale'', JBool True)]
       = map (\<lambda>k. (k, resolve ex_movies JNull (fileList (ex_state [0, 1, 2, 3]) ! 1) k))
           (filter (\<lambda>k. k \<noteq> ''__proto__'')
              (first_seen (map fst (all_entries ex_movies (fileList (ex_state [0, 1, 2, 3]))))))
   \<and> roundtrip ex_movies JNull (ex_state [0, 1, 2, 3]) 1 [(''Stale'', JBool True)]
       = [(''Title'', JStr ''Heat''), (''Year'', JNum 1995), (''Director'', JStr ''Mann'')]"
proof -
  let ?s = "ex_state [0, 1, 2, 3]"
  have i: "(1::nat) < length (fileList ?s)"
    by (simp add: ex_state_def)
  have d: "distinct (map fst (entries ex_movies (fileList ?s ! 1)))"
    by code_simp
  have sub: "fst ` set (all_entries ex_movies (fileList ?s))
       \<subseteq> fst ` set (entries ex_movies (fileList ?s ! 1))"
    by code_simp
  have ni: "list_all (\<lambda>k. array_index k = None) (map fst (all_entries ex_movies (fileList ?s)))"
    by code_simp
  then have ni': "\<forall>k \<in> fst ` set (all_entries ex_movies (fileList ?s)). array_index k = None"
    by (simp add: list_all_iff)
  have v: "roundtrip ex_movies JNull ?s 1 [(''Stale'', JBool True)]
       = [(''Title'', JStr ''Heat''), (''Year'', JNum 1995), (''Director'', JStr ''Mann'')]"
    by code_simp
  have np: "list_all (\<lambda>kv. fst kv \<noteq> ''__proto__'') (entries ex_movies (fileList ?s ! 1))"
    by code_simp
  then have w: "{kv \<in> set (entries ex_movies (fileList ?s ! 1)). fst kv \<noteq> ''__proto__''}
       = set (entries ex_movies (fileList ?s ! 1))"
    by (auto simp: list_all_iff)
  note T = C3_round_trip[OF i, where cache = ex_movies and ph = JNull
      and obj = "[(''Stale'', JBool True)]"]
  from T[THEN conjunct2, THEN conjunct2, THEN conjunct2, THEN conjunct1, THEN mp, OF conjI[OF d sub]]
  have a: "set (roundtrip ex_movies JNull ?s 1 [(''Stale'', JBool True)])
       = {kv \<in> set (entries ex_movies (fileList ?s ! 1)). fst kv \<noteq> ''__proto__''}" .
  from T[THEN conjunct2, THEN conjunct2, THEN conjunct2, THEN conjunct2, THEN conjunct1, THEN mp, OF ni']
  have b: "roundtrip ex_movies JNull ?s 1 [(''Stale'', JBool True)]
       = map (\<lambda>k. (k, resolve ex_movies JNull (fileList ?s ! 1) k))
           (filter (\<lambda>k. k \<noteq> ''__proto__'')
              (first_seen (map fst (all_entries ex_movies (fileList ?s)))))" .
  from i d sub ni a w b v show ?thesis by (simp only: simp_thms)
qed

text \<open>
  C3 as stated does not hold: the first document of \<open>ex_movies\<close> has no Director, and
  its round trip adds the pair Director: null.
\<close>

theorem C3_counterexample:
  "entries ex_movies 0 = [(''Title'', JStr ''Alien''), (''Year'', JNum 1979)]
   \<and> roundtrip ex_movies JNull (ex_state [0, 1, 2, 3]) 0 (entries ex_movies 0)
       = [(''Title'', JStr ''Alien''), (''Year'', JNum 1979), (''Director'', JNull)]
   \<and> set (roundtrip ex_movies JNull (ex_state [0, 1, 2, 3]) 0 (entries ex_movies 0))
       \<noteq> set (entries ex_movies 0)"
  by code_simp

section \<open>No value crosses between documents\<close>

lemma found_value_cong:
  "prop_id p = prop_id p' \<Longrightarrow> prop_value p = prop_value p' \<Longrightarrow>
     prop_value (found_or fl p) = prop_value (found_or fl p')"
  by (simp add: found_or_def split: option.splits)

lemma replay_fold_cong:
  "map (\<lambda>p. (prop_id p, prop_key p, prop_value p)) ps
     = map (\<lambda>p. (prop_id p, prop_key p, prop_value p)) ps' \<Longrightarrow>
   foldl (replay_step fl) acc ps = foldl (replay_step fl) acc ps'"
proof (induction ps arbitrary: ps' acc)
  case Nil
  then show ?case by simp
next
  case (Cons p ps)
  from Cons.prems obtain p' ps'' where ps': "ps' = p' # ps''"
    by (cases ps') auto
  from Cons.prems have h: "prop_id p = prop_id p'" "prop_key p = prop_key p'"
      "prop_value p = prop_value p'"
    and t: "map (\<lambda>p. (prop_id p, prop_key p, prop_value p)) ps
       = map (\<lambda>p. (prop_id p, prop_key p, prop_value p)) ps''"
    by (simp_all add: ps')
  have "replay_step fl acc p = replay_step fl acc p'"
    using found_value_cong[OF h(1) h(3), of fl] by (simp add: replay_step_def h(2))
  then show ?case
    using Cons.IH[OF t] by (simp add: ps')
qed

lemma writeFrontmatter_cong:
  "map (\<lambda>p. (prop_id p, prop_key p, prop_value p)) ps
     = map (\<lambda>p. (prop_id p, prop_key p, prop_value p)) ps' \<Longrightarrow>
   writeFrontmatter fl ps obj = writeFrontmatter fl ps' obj"
  unfolding writeFrontmatter_fold by (rule arg_cong[where f = fst]) (rule replay_fold_cong)

lemma unified_proj:
  "map (\<lambda>p. (prop_id p, prop_key p, prop_value p)) (unified ph u0 es)
     = map (\<lambda>k. (key_id u0 (map fst es) k, k, ph)) (first_seen (map fst es))"
  by (simp add: unified_def comp_def)

lemma all_keys_concat:
  "map fst (all_entries cache files) = concat (map (\<lambda>f. map fst (entries cache f)) files)"
  by (simp add: all_entries_def map_concat comp_def)

lemma roundtrip_in:
  assumes "i < length (fileList s)" and "k \<in> fst ` set (all_entries cache (fileList s))"
    and "k \<noteq> ''__proto__''"
  shows "map_of (roundtrip cache ph s i obj) k = Some (resolve cache ph (fileList s ! i) k)"
proof -
  have "(k, resolve cache ph (fileList s ! i) k) \<in> set (roundtrip cache ph s i obj)"
    unfolding roundtrip_def replay_pairs[OF assms(1)] using assms(2,3) by blast
  moreover have "distinct (map fst (roundtrip cache ph s i obj))"
    by (simp add: roundtrip_def writeFrontmatter_distinct)
  ultimately show ?thesis by simp
qed



section \<open>Identity of keys\<close>

lemma findIndex_distinct:
  "distinct (map g ps) \<Longrightarrow> r < length ps \<Longrightarrow> findIndex (\<lambda>q. g q = g (ps ! r)) ps = Some r"
proof (induction ps arbitrary: r)
  case Nil
  then show ?case by simp
next
  case (Cons p ps)
  show ?case
  proof (cases r)
    case 0
    then show ?thesis by simp
  next
    case (Suc r')
    with Cons.prems have r': "r' < length ps" and d: "distinct (map g ps)"
      and ne: "g p \<noteq> g (ps ! r')"
      by (auto simp: image_iff)
    from Cons.IH[OF d r'] ne show ?thesis by (simp add: Suc)
  qed
qed

lemma unified_ids_distinct: "distinct (map prop_id (unified ph u0 es))"
proof -
  have "map prop_id (unified ph u0 es) = map (key_id u0 (map fst es)) (first_seen (map fst es))"
    by (simp add: unified_def comp_def)
  moreover have "inj_on (key_id u0 (map fst es)) (set (first_seen (map fst es)))"
    by (rule inj_onI) (metis key_id_inj set_first_seen)
  ultimately show ?thesis by (simp add: distinct_map)
qed

lemma snapshot_mem:
  "i < length files \<Longrightarrow> fm \<in> set (snapshots cache u0 files ! i) \<Longrightarrow>
     prop_key fm \<in> fst ` set (all_entries cache files)
     \<and> prop_id fm = key_id u0 (map fst (all_entries cache files)) (prop_key fm)"
proof -
  assume i: "i < length files" and "fm \<in> set (snapshots cache u0 files ! i)"
  then obtain kv where kv: "kv \<in> set (entries cache (files ! i))"
    and fm: "fm = snapshot_entry u0 (map fst (all_entries cache files)) kv"
    by (auto simp: snapshots_nth)
  from i have "files ! i \<in> set files" by simp
  from entries_subset[OF this, of cache] kv have "kv \<in> set (all_entries cache files)" by blast
  then show ?thesis by (simp add: fm snapshot_entry_def)
qed

lemma rename_list:
  assumes fi: "findIndex (\<lambda>q. prop_id q = d) (propertyList t) = Some r"
    and nr: "prop_key (propertyList t ! r) \<notin> set internalpropertyList"
    and n: "n \<noteq> []" and fresh: "n \<notin> prop_key ` set (propertyList t)"
  shows "propertyList (onRename d (Some n) t)
           = (propertyList t)[r := (propertyList t ! r)\<lparr>prop_key := n\<rparr>]"
  using assms by (simp add: onRename_def list_ex_key)

lemma rename_replay:
  assumes fi: "findIndex (\<lambda>q. prop_id q = d) (propertyList t) = Some r"
    and nr: "prop_key (propertyList t ! r) \<notin> set internalpropertyList"
    and n: "n \<noteq> []" and fresh: "n \<notin> prop_key ` set (propertyList t)"
    and dk: "distinct (map prop_key (propertyList t))"
  shows "set (writeFrontmatter fl (propertyList (onRename d (Some n) t)) obj)
           = (\<lambda>q. (if prop_key q = prop_key (propertyList t ! r) then n else prop_key q,
                    prop_value (found_or fl q)))
               ` {q \<in> set (propertyList t).
                    (if prop_key q = prop_key (propertyList t ! r) then n else prop_key q)
                      \<noteq> ''__proto__''}"
proof -
  let ?ps = "propertyList t"
  let ?p = "?ps ! r"
  let ?p' = "?p\<lparr>prop_key := n\<rparr>"
  let ?R = "onRename d (Some n) t"
  let ?ren = "\<lambda>k. if k = prop_key ?p then n else k"
  let ?g = "\<lambda>q. (prop_key q, prop_value (found_or fl q))"
  let ?h = "\<lambda>q. (?ren (prop_key q), prop_value (found_or fl q))"
  from findIndex_Some[OF fi] have r: "r < length ?ps" by simp
  have pl: "propertyList ?R = ?ps[r := ?p']"
    by (rule rename_list[OF fi nr n fresh])
  have dps: "distinct ?ps"
    using dk by (rule distinct_map[THEN iffD1, THEN conjunct1])
  have pm: "?p \<in> set ?ps" using r by simp
  have set': "set (propertyList ?R) = insert ?p' (set ?ps - {?p})"
    unfolding pl by (rule set_update_distinct[OF dps r])
  have dk': "distinct (map prop_key (propertyList ?R))"
    by (rule rename_distinct[OF dk])
  have gp: "?g ?p' = ?h ?p"
    using found_value_cong[of ?p' ?p fl] by simp
  have other: "prop_key q \<noteq> prop_key ?p" if "q \<in> set ?ps" "q \<noteq> ?p" for q
    using dk that pm by (metis distinct_map inj_onD)
  have "set (writeFrontmatter fl (propertyList ?R) obj)
      = ?g ` {q \<in> set (propertyList ?R). prop_key q \<noteq> ''__proto__''}"
    by (rule writeFrontmatter_set[OF dk'])
  also have "\<dots> = ?h ` {q \<in> set ?ps. ?ren (prop_key q) \<noteq> ''__proto__''}"
  proof (intro set_eqI iffI)
    fix x assume "x \<in> ?g ` {q \<in> set (propertyList ?R). prop_key q \<noteq> ''__proto__''}"
    then obtain q where q: "q \<in> insert ?p' (set ?ps - {?p})" "prop_key q \<noteq> ''__proto__''"
      and x: "x = ?g q"
      unfolding set' by blast
    show "x \<in> ?h ` {q \<in> set ?ps. ?ren (prop_key q) \<noteq> ''__proto__''}"
    proof (cases "q = ?p'")
      case True
      with q(2) have "?ren (prop_key ?p) \<noteq> ''__proto__''" by simp
      with pm have "?p \<in> {q \<in> set ?ps. ?ren (prop_key q) \<noteq> ''__proto__''}" by simp
      moreover have "x = ?h ?p" using x True gp by simp
      ultimately show ?thesis by (rule rev_image_eqI)
    next
      case False
      with q(1) have qs: "q \<in> set ?ps" "q \<noteq> ?p" by auto
      from other[OF qs] have k: "?ren (prop_key q) = prop_key q" by simp
      with q(2) qs(1) have "q \<in> {q \<in> set ?ps. ?ren (prop_key q) \<noteq> ''__proto__''}" by simp
      moreover have "x = ?h q" using x k by simp
      ultimately show ?thesis by (rule rev_image_eqI)
    qed
  next
    fix x assume "x \<in> ?h ` {q \<in> set ?ps. ?ren (prop_key q) \<noteq> ''__proto__''}"
    then obtain q where q: "q \<in> set ?ps" "?ren (prop_key q) \<noteq> ''__proto__''" and x: "x = ?h q"
      by blast
    show "x \<in> ?g ` {q \<in> set (propertyList ?R). prop_key q \<noteq> ''__proto__''}"
    proof (cases "q = ?p")
      case True
      with q(2) have "prop_key ?p' \<noteq> ''__proto__''" by simp
      then have "?p' \<in> {q \<in> set (propertyList ?R). prop_key q \<noteq> ''__proto__''}"
        unfolding set' by simp
      moreover have "x = ?g ?p'" using x True gp by simp
      ultimately show ?thesis by (rule rev_image_eqI)
    next
      case False
      from other[OF q(1) False] have k: "?ren (prop_key q) = prop_key q" by simp
      with q False have "q \<in> {q \<in> set (propertyList ?R). prop_key q \<noteq> ''__proto__''}"
        unfolding set' by simp
      moreover have "x = ?g q" using x k by simp
      ultimately show ?thesis by (rule rev_image_eqI)
    qed
  qed
  finally show ?thesis .
qed



section \<open>Replay by rewriting the file text\<close>

lemma resolved_found: "resolved fl e = prop_value (found_or fl e)"
  by (simp add: resolved_def found_or_def split: option.splits)

lemma renderLine_ok:
  "renders H (resolved fl e) \<Longrightarrow>
     renderLine H fl e = Inr (prop_key e @ '': '' @ emitted_text H (resolved fl e))"
  by (auto simp: renders_def renderLine_def emitted_text_def resolved_found split: sum.splits)

lemma mapE_ok: "(\<forall>x\<in>set xs. f x = Inr (g x)) \<Longrightarrow> mapE f xs = Inr (map g xs)"
  by (induction xs) simp_all

lemma renderList_ok:
  "\<forall>e\<in>set ps. renders H (resolved fl e) \<Longrightarrow> renderList H (Some fl) ps = Inr (emitted_lines H fl ps)"
  unfolding renderList_def emitted_lines_def
  by (rule mapE_ok) (simp add: renderLine_ok)

lemma renderLine_char:
  "renderLine H fl e =
     (if renders H (resolved fl e)
      then Inr (prop_key e @ '': '' @ emitted_text H (resolved fl e))
      else Inl TypeError)"
proof (cases "renders H (resolved fl e)")
  case True
  then show ?thesis by (simp add: renderLine_ok)
next
  case False
  then have "\<exists>x. renderLine H fl e = Inl x"
    by (auto simp: renders_def renderLine_def resolved_found split: sum.splits)
  with False show ?thesis by (auto simp: error_only)
qed

lemma renderList_char:
  "renderList H (Some fl) ps =
     (if list_all (\<lambda>e. renders H (resolved fl e)) ps then Inr (emitted_lines H fl ps)
      else Inl TypeError)"
  by (induction ps) (simp_all add: renderList_def emitted_lines_def renderLine_char)

lemma updateLoop_ok:
  "i + length files \<le> length fls \<Longrightarrow> distinct files \<Longrightarrow>
   \<forall>fl\<in>set fls. \<forall>e\<in>set ps. renders H (resolved fl e) \<Longrightarrow>
     updateLoop H fls ps i files vault =
       (\<lambda>f. if f \<in> set files
             then newFrontmatter (emitted_lines H (fls ! (i + index_of f files)) ps)
                    @ newContent (vault f)
             else vault f, None)"
proof (induction files arbitrary: i vault)
  case Nil
  show ?case by simp
next
  case (Cons f0 files)
  from Cons.prems have i: "i < length fls" and le: "Suc i + length files \<le> length fls"
    and d: "distinct files" and nm: "f0 \<notin> set files"
    by simp_all
  from i Cons.prems(3) have "\<forall>e\<in>set ps. renders H (resolved (fls ! i) e)" by simp
  then have rl: "renderList H (Some (fls ! i)) ps = Inr (emitted_lines H (fls ! i) ps)"
    by (rule renderList_ok)
  let ?vault = "vault(f0 := newFrontmatter (emitted_lines H (fls ! i) ps) @ newContent (vault f0))"
  have "updateLoop H fls ps i (f0 # files) vault = updateLoop H fls ps (Suc i) files ?vault"
    using i by (simp add: rewriteFile_def rl)
  also have "\<dots> = (\<lambda>f. if f \<in> set files
                 then newFrontmatter (emitted_lines H (fls ! (Suc i + index_of f files)) ps)
                        @ newContent (?vault f)
                 else ?vault f, None)"
    by (rule Cons.IH[OF le d Cons.prems(3)])
  also have "(\<lambda>f. if f \<in> set files
                 then newFrontmatter (emitted_lines H (fls ! (Suc i + index_of f files)) ps)
                        @ newContent (?vault f)
                 else ?vault f)
      = (\<lambda>f. if f \<in> set (f0 # files)
                 then newFrontmatter (emitted_lines H (fls ! (i + index_of f (f0 # files))) ps)
                        @ newContent (vault f)
                 else vault f)"
    using nm by (auto simp: fun_eq_iff)
  finally show ?case .
qed

lemma not_link_null: "\<not> wikiLinkPattern_test ''null''" "\<not> wikiLinkPattern_test ''undefined''"
  "\<not> wikiLinkPattern_test ''true''" "\<not> wikiLinkPattern_test ''false''"
  by (simp_all add: wikiLinkPattern_test_def)

lemma plain_item_ok: "plain_item H v \<Longrightarrow> \<exists>t. stringify_item H v = Inr t"
  by (cases v) (simp_all add: plain_item_def stringify_item_def not_link_null)

lemma mapE_total: "\<forall>x\<in>set xs. \<exists>y. f x = Inr y \<Longrightarrow> \<exists>ys. mapE f xs = Inr ys"
  by (induction xs) auto

lemma plain_renders: "plain H v \<Longrightarrow> renders H v"
proof (cases v)
  case (JArr vs)
  assume "plain H v"
  with JArr have "\<forall>x\<in>set vs. \<exists>t. stringify_item H x = Inr t"
    by (simp add: plain_def list_all_iff plain_item_ok)
  then obtain ys where "mapE (stringify_item H) vs = Inr ys"
    using mapE_total by blast
  with JArr show ?thesis by (simp add: renders_def stringifyValue_def)
qed (simp_all add: plain_def renders_def stringifyValue_def)

text \<open>The lines of the written block, split at the line feeds.\<close>

lemma js_split_ne: "js_split sep s \<noteq> []"
  by (subst js_split.simps) (simp split: list.splits)

lemma js_split_empty: "js_split sep [] = [[]]"
  by (subst js_split.simps) simp

lemma js_split_sep: "js_split [c] (c # s) = [] # js_split [c] s"
  by (subst js_split.simps) (simp add: starts_with_def)

lemma js_split_other:
  "a \<noteq> c \<Longrightarrow> js_split [c] (a # s) = (a # hd (js_split [c] s)) # tl (js_split [c] s)"
  using js_split_ne[of "[c]" s]
  by (subst js_split.simps) (simp add: starts_with_def split: list.splits)

lemma js_split_append: "js_split [c] (x @ c # y) = js_split [c] x @ js_split [c] y"
proof (induction x)
  case Nil
  show ?case by (simp only: append_Nil js_split_sep js_split_empty append_Cons)
next
  case (Cons a x)
  show ?case
  proof (cases "a = c")
    case True
    then show ?thesis by (simp only: append_Cons js_split_sep Cons.IH)
  next
    case False
    from js_split_ne[of "[c]" x] obtain p ps where p: "js_split [c] x = p # ps"
      by (cases "js_split [c] x") auto
    show ?thesis
      by (simp only: append_Cons js_split_other[OF False] Cons.IH p list.sel)
  qed
qed

lemma js_split_none: "c \<notin> set x \<Longrightarrow> js_split [c] x = [x]"
proof (induction x)
  case Nil
  show ?case by (rule js_split_empty)
next
  case (Cons a x)
  then have ne: "a \<noteq> c" and IH: "js_split [c] x = [x]" by auto
  show ?case by (simp only: js_split_other[OF ne] IH list.sel)
qed

lemma js_split_join:
  "ls \<noteq> [] \<Longrightarrow> js_split [c] (join [c] ls) = concat (map (js_split [c]) ls)"
proof (induction "[c]" ls rule: join.induct)
  case 1
  then show ?case by simp
next
  case (2 x)
  show ?case by (simp)
next
  case (3 x y ys)
  then have IH: "js_split [c] (join [c] (y # ys)) = concat (map (js_split [c]) (y # ys))"
    by simp
  have "join [c] (x # y # ys) = x @ c # join [c] (y # ys)" by simp
  then show ?case
    by (simp only: js_split_append IH list.map concat.simps)
qed

lemma js_split_items:
  "c \<notin> set a \<Longrightarrow> \<forall>t\<in>set ts. c \<notin> set t \<Longrightarrow>
     js_split [c] (a @ concat (map (\<lambda>t. c # t) ts)) = a # ts"
proof (induction ts arbitrary: a)
  case Nil
  then show ?case by (simp add: js_split_none)
next
  case (Cons t ts)
  then have a: "c \<notin> set a" and t: "c \<notin> set t" and ts: "\<forall>t\<in>set ts. c \<notin> set t"
    by simp_all
  have "a @ concat (map (\<lambda>t. c # t) (t # ts)) = a @ c # (t @ concat (map (\<lambda>t. c # t) ts))"
    by simp
  then show ?case
    by (simp only: js_split_append js_split_none[OF a] Cons.IH[OF t ts] append_Cons append_Nil)
qed

lemma no_line_feed: "\<not> has_line_terminator s \<Longrightarrow> CHR 0x0A \<notin> set s"
  by (induction s) auto

lemma stringify_item_text:
  "stringify_item H v = Inr t \<Longrightarrow> t = [CHR 0x0A] @ ''  - '' @ item_text H v"
  by (cases v)
    (auto simp: stringify_item_def item_text_def scalar_text_def split: sum.splits if_splits)

lemma mapE_Inr: "mapE f xs = Inr ys \<Longrightarrow> \<forall>x\<in>set xs. \<exists>y. f x = Inr y"
  by (simp add: mapE_all split: if_splits)

lemma stringify_items:
  assumes "mapE (stringify_item H) vs = Inr items"
  shows "items = map (\<lambda>x. CHR 0x0A # ''  - '' @ item_text H x) vs"
proof -
  from mapE_Inr[OF assms] have "\<forall>x\<in>set vs. \<exists>y. stringify_item H x = Inr y" .
  then have "\<forall>x\<in>set vs. stringify_item H x = Inr (CHR 0x0A # ''  - '' @ item_text H x)"
    using stringify_item_text by fastforce
  from mapE_ok[OF this] assms show ?thesis by simp
qed

lemma entry_split:
  assumes r: "renders H v" and u: "unbroken H k v"
  shows "js_split [CHR 0x0A] (k @ '': '' @ emitted_text H v) = entry_lines H k v"
proof (cases "\<exists>vs. v = JArr vs")
  case True
  then obtain vs where v: "v = JArr vs" by blast
  from r v obtain items where m: "mapE (stringify_item H) vs = Inr items"
    by (auto simp: renders_def stringifyValue_def split: sum.splits)
  let ?ts = "map (\<lambda>x. ''  - '' @ item_text H x) vs"
  have items: "items = map (\<lambda>t. CHR 0x0A # t) ?ts"
    using stringify_items[OF m] by (simp add: comp_def)
  have e: "emitted_text H v = concat (map (\<lambda>t. CHR 0x0A # t) ?ts)"
    using m by (simp add: emitted_text_def stringifyValue_def v items)
  from u have "list_all (\<lambda>l. \<not> has_line_terminator l) ((k @ '': '') # ?ts)"
    by (simp only: unbroken_def entry_lines_def v jsval.case)
  then have "\<forall>l\<in>set ((k @ '': '') # ?ts). \<not> has_line_terminator l"
    by (simp only: list_all_iff)
  then have all: "\<forall>l\<in>set ((k @ '': '') # ?ts). CHR 0x0A \<notin> set l"
    using no_line_feed by blast
  from all have a: "CHR 0x0A \<notin> set (k @ '': '')"
    by (metis list.set_intros(1))
  from all have b: "\<forall>t\<in>set ?ts. CHR 0x0A \<notin> set t"
    by (metis list.set_intros(2))
  from js_split_items[OF a b]
  have s: "js_split [CHR 0x0A] ((k @ '': '') @ concat (map (\<lambda>t. CHR 0x0A # t) ?ts)) = (k @ '': '') # ?ts" .
  have l: "entry_lines H k v = (k @ '': '') # ?ts"
    by (simp only: entry_lines_def v jsval.case)
  have "k @ '': '' @ emitted_text H v = (k @ '': '') @ concat (map (\<lambda>t. CHR 0x0A # t) ?ts)"
    by (simp only: e append_assoc)
  with s l show ?thesis by (simp only:)
next
  case False
  then have sv: "stringifyValue H v = Inr v"
    by (cases v) (simp_all add: stringifyValue_def)
  with r obtain t where t: "js_toString H v = Inr t"
    by (auto simp: renders_def split: sum.splits)
  have e: "emitted_text H v = scalar_text H v"
    by (simp add: emitted_text_def sv t scalar_text_def)
  have l: "entry_lines H k v = [k @ '': '' @ scalar_text H v]"
    using False by (cases v) (simp_all add: entry_lines_def)
  from u have "\<not> has_line_terminator (k @ '': '' @ scalar_text H v)"
    by (simp only: unbroken_def l list.pred_inject simp_thms)
  then have "CHR 0x0A \<notin> set (k @ '': '' @ scalar_text H v)"
    by (rule no_line_feed)
  from js_split_none[OF this] show ?thesis
    by (simp only: e l)
qed

lemma block_lines:
  assumes "ps \<noteq> []" and r: "\<forall>e\<in>set ps. renders H (resolved fl e)"
    and u: "\<forall>e\<in>set ps. unbroken H (prop_key e) (resolved fl e)"
  shows "js_split [CHR 0x0A] (newFrontmatter (emitted_lines H fl ps))
           = ''---'' # concat (map (\<lambda>e. entry_lines H (prop_key e) (resolved fl e)) ps)
             @ [''---'', []]"
proof -
  let ?c = "CHR 0x0A"
  let ?ls = "emitted_lines H fl ps"
  have ne: "?ls \<noteq> []" using assms(1) by (simp add: emitted_lines_def)
  have "js_split [?c] (prop_key e @ '': '' @ emitted_text H (resolved fl e))
      = entry_lines H (prop_key e) (resolved fl e)" if "e \<in> set ps" for e
    using r u that by (intro entry_split) blast+
  then have "map (js_split [?c]) ?ls = map (\<lambda>e. entry_lines H (prop_key e) (resolved fl e)) ps"
    unfolding emitted_lines_def map_map comp_def
    by (intro map_cong[OF refl])
  then have j: "js_split [?c] (join [?c] ?ls)
      = concat (map (\<lambda>e. entry_lines H (prop_key e) (resolved fl e)) ps)"
    by (simp only: js_split_join[OF ne])
  have d: "js_split [?c] ''---'' = [''---'']"
    by (rule js_split_none) simp
  have nf: "newFrontmatter ?ls = ''---'' @ ?c # (join [?c] ?ls @ ?c # (''---'' @ ?c # []))"
    using ne by (simp add: newFrontmatter_def)
  have "js_split [?c] (newFrontmatter ?ls)
      = js_split [?c] (''---'' @ ?c # (join [?c] ?ls @ ?c # (''---'' @ ?c # [])))"
    by (simp only: nf)
  also have "\<dots> = js_split [?c] ''---'' @ js_split [?c] (join [?c] ?ls)
      @ js_split [?c] ''---'' @ js_split [?c] []"
    by (simp only: js_split_append)
  also have "\<dots> = [''---''] @ concat (map (\<lambda>e. entry_lines H (prop_key e) (resolved fl e)) ps)
      @ [''---''] @ [[]]"
    by (simp only: d j js_split_empty)
  also have "\<dots> = ''---'' # concat (map (\<lambda>e. entry_lines H (prop_key e) (resolved fl e)) ps)
      @ [''---'', []]"
    by simp
  finally show ?thesis .
qed

lemma ids_below_initializeView: "ids_below (initializeView cache ph s)"
proof -
  let ?keys = "map fst (all_entries cache (fileList s))"
  have "prop_id fm < next_uuid s + length (first_seen ?keys)"
    if "fl \<in> set (snapshots cache (next_uuid s) (fileList s))" "fm \<in> set fl" for fl fm
  proof -
    from that(1) obtain i where i: "i < length (fileList s)"
      and fl: "fl = snapshots cache (next_uuid s) (fileList s) ! i"
      by (auto simp: in_set_conv_nth snapshots_def)
    from snapshot_mem[OF i, of fm cache "next_uuid s"] that(2) fl
    have "prop_key fm \<in> set (first_seen ?keys)"
      and "prop_id fm = next_uuid s + index_of (prop_key fm) (first_seen ?keys)"
      by (simp_all add: key_id_def)
    with index_of_less[of "prop_key fm" "first_seen ?keys"] show ?thesis by simp
  qed
  then show ?thesis
    by (simp add: ids_below_def initializeView_described list_all_iff)
qed

lemma ids_below_edits:
  "ids_below s \<Longrightarrow> ids_below (addNewProperty ph ty s)"
  "ids_below s \<Longrightarrow> ids_below (onRename i name s)"
  "ids_below s \<Longrightarrow> ids_below (onDelete i s)"
  "ids_below s \<Longrightarrow> ids_below (onDrop d t s)"
  "ids_below s \<Longrightarrow> ids_below (onChangeAddInput v s)"
  by (force simp: ids_below_def addNewProperty_def onRename_def onDelete_def onDrop_def
      onChangeAddInput_def Let_def list_all_iff less_Suc_eq split: option.splits)+

lemma added_entry_default:
  assumes "ids_below s" and "trim (newAddName s) \<noteq> []"
    and "trim (newAddName s) \<notin> prop_key ` set (propertyList s)"
  shows "last (propertyList (addNewProperty dflt ty s))
           = \<lparr>prop_id = next_uuid s, prop_key = trim (newAddName s), prop_value = dflt,
              prop_type = ty, prop_types = None\<rparr>
         \<and> (\<forall>fl \<in> set (frontmatterLists (addNewProperty dflt ty s)).
              resolved fl (last (propertyList (addNewProperty dflt ty s))) = dflt)"
proof -
  let ?e = "\<lparr>prop_id = next_uuid s, prop_key = trim (newAddName s), prop_value = dflt,
              prop_type = ty, prop_types = None\<rparr>"
  from assms(2,3) have l: "last (propertyList (addNewProperty dflt ty s)) = ?e"
    by (simp add: addNewProperty_def Let_def list_ex_key)
  have "resolved fl ?e = dflt" if "fl \<in> set (frontmatterLists s)" for fl
  proof -
    from assms(1) that have "\<forall>fm\<in>set fl. prop_id fm < next_uuid s"
      by (simp add: ids_below_def list_all_iff)
    then have "\<forall>fm\<in>set fl. prop_id fm \<noteq> next_uuid s"
      by (metis less_irrefl)
    then have "find (\<lambda>fm. prop_id fm = next_uuid s) fl = None"
      by (simp add: find_None_iff)
    then show ?thesis by (simp add: resolved_def)
  qed
  with l show ?thesis by (simp add: edits_frame)
qed

text \<open>
  Outside these conditions: a list nested in a list that reads as a link makes
  \<open>stringifyValue\<close> raise, and the replay stops at that document with the documents
  before it rewritten and the others untouched; and a text value that holds a line feed
  is written as it is, so that its second line stands in the block like an entry.
\<close>

lemma replay_stops_at_exception:
  "map prop_key (propertyList ex_nested_session) = [''a'', ''links'']
   \<and> \<not> renders ex_host (JArr [JArr [JStr ''[[x]]'']])
   \<and> snd (updateMarkdownFiles ex_host ex_nested_session ex_vault) = Some TypeError
   \<and> fst (updateMarkdownFiles ex_host ex_nested_session ex_vault) 0
       = ''---\<newline>a: x\<newline>links: \<newline>---\<newline>A film.''
   \<and> fst (updateMarkdownFiles ex_host ex_nested_session ex_vault) 1 = ex_vault 1
   \<and> fst (updateMarkdownFiles ex_host ex_nested_session ex_vault) 2 = ex_vault 2"
  by code_simp

lemma line_feed_in_value:
  "map prop_key (propertyList ex_broken_session) = [''note'']
   \<and> renders ex_host (JStr (''x'' @ [CHR 0x0A] @ ''Evil: 1''))
   \<and> \<not> unbroken ex_host ''note'' (JStr (''x'' @ [CHR 0x0A] @ ''Evil: 1''))
   \<and> snd (updateMarkdownFiles ex_host ex_broken_session ex_vault) = None
   \<and> js_split [CHR 0x0A] (fst (updateMarkdownFiles ex_host ex_broken_session ex_vault) 0)
       = [''---'', ''note: x'', ''Evil: 1'', ''---'', ''A film.'']"
  by code_simp

text \<open>
  C1, as the code has it. For a session whose store is as long as its file list, with
  distinct files and values whose serialisation raises no exception,
  \<open>updateMarkdownFiles\<close> rewrites every file and raises nothing: the text of the file
  at position \<open>i\<close> is the metadata block made of \<open>emitted_lines\<close> for snapshot \<open>i\<close>,
  followed by \<open>newContent\<close> of the old text. The block has one entry for each entry of
  the working list, in its order, with the entry's current key and the value of the
  snapshot entry that carries the entry's identifier, or the entry's own value when the
  snapshot has none. When moreover no line of an entry holds a line terminator, the
  lines of the block are exactly \<open>---\<close>, the \<open>entry_lines\<close> of the entries in order,
  and \<open>---\<close>: no line with another key stands in it. Add takes no default: the entry
  it makes has a fresh identifier and the value \<open>''\<close> (\<open>null\<close> in main.ts), to which
  it resolves in every snapshot, and its line is the key followed by \<open>: \<close>. Whether a
  document's lines are made at all depends on the values only: they are, or a TypeError
  is raised, the latter exactly when some value does not serialise; plain values do.
\<close>

theorem C1_replay_emission:
  assumes "length (frontmatterLists s) = length (fileList s)" and "distinct (fileList s)"
    and "\<forall>fl \<in> set (frontmatterLists s). \<forall>e \<in> set (propertyList s). renders H (resolved fl e)"
  shows "updateMarkdownFiles H s vault =
           (\<lambda>f. if f \<in> set (fileList s)
                 then newFrontmatter
                        (emitted_lines H (frontmatterLists s ! index_of f (fileList s))
                           (propertyList s))
                      @ newContent (vault f)
                 else vault f, None)
    \<and> (\<forall>i < length (fileList s).
          renderList H (Some (frontmatterLists s ! i)) (propertyList s)
            = Inr (emitted_lines H (frontmatterLists s ! i) (propertyList s))
          \<and> length (emitted_lines H (frontmatterLists s ! i) (propertyList s))
              = length (propertyList s)
          \<and> (\<forall>j < length (propertyList s).
                emitted_lines H (frontmatterLists s ! i) (propertyList s) ! j
                  = prop_key (propertyList s ! j) @ '': ''
                    @ emitted_text H (resolved (frontmatterLists s ! i) (propertyList s ! j))))
    \<and> ((\<forall>fl \<in> set (frontmatterLists s). \<forall>e \<in> set (propertyList s).
           unbroken H (prop_key e) (resolved fl e))
        \<and> propertyList s \<noteq> [] \<longrightarrow>
        (\<forall>i < length (fileList s).
           js_split [CHR 0x0A]
               (newFrontmatter (emitted_lines H (frontmatterLists s ! i) (propertyList s)))
             = ''---''
               # concat (map (\<lambda>e. entry_lines H (prop_key e) (resolved (frontmatterLists s ! i) e))
                           (propertyList s))
               @ [''---'', []]))
    \<and> (ids_below s \<and> trim (newAddName s) \<noteq> []
        \<and> trim (newAddName s) \<notin> prop_key ` set (propertyList s) \<longrightarrow>
        last (propertyList (addNewProperty (JStr []) ''Text'' s))
          = \<lparr>prop_id = next_uuid s, prop_key = trim (newAddName s), prop_value = JStr [],
             prop_type = ''Text'', prop_types = None\<rparr>
        \<and> (\<forall>fl \<in> set (frontmatterLists (addNewProperty (JStr []) ''Text'' s)).
             resolved fl (last (propertyList (addNewProperty (JStr []) ''Text'' s))) = JStr [])
        \<and> entry_lines H (trim (newAddName s)) (JStr []) = [trim (newAddName s) @ '': '']
        \<and> last (propertyList (addNewProperty JNull ''Null'' s))
          = \<lparr>prop_id = next_uuid s, prop_key = trim (newAddName s), prop_value = JNull,
             prop_type = ''Null'', prop_types = None\<rparr>
        \<and> (\<forall>fl \<in> set (frontmatterLists (addNewProperty JNull ''Null'' s)).
             resolved fl (last (propertyList (addNewProperty JNull ''Null'' s))) = JNull))
    \<and> renderList H (Some fl) ps =
         (if list_all (\<lambda>e. renders H (resolved fl e)) ps then Inr (emitted_lines H fl ps)
          else Inl TypeError)
    \<and> (plain H v \<longrightarrow> renders H v)"
proof (intro conjI)
  show "renderList H (Some fl) ps =
         (if list_all (\<lambda>e. renders H (resolved fl e)) ps then Inr (emitted_lines H fl ps)
          else Inl TypeError)"
    by (rule renderList_char)
  show "plain H v \<longrightarrow> renders H v"
    by (simp add: plain_renders)
  show "updateMarkdownFiles H s vault =
           (\<lambda>f. if f \<in> set (fileList s)
                 then newFrontmatter
                        (emitted_lines H (frontmatterLists s ! index_of f (fileList s))
                           (propertyList s))
                      @ newContent (vault f)
                 else vault f, None)"
    using updateLoop_ok[of 0 "fileList s" "frontmatterLists s" "propertyList s" H vault] assms
    by (simp add: updateMarkdownFiles_def cong: if_cong)
  show "\<forall>i < length (fileList s).
          renderList H (Some (frontmatterLists s ! i)) (propertyList s)
            = Inr (emitted_lines H (frontmatterLists s ! i) (propertyList s))
          \<and> length (emitted_lines H (frontmatterLists s ! i) (propertyList s))
              = length (propertyList s)
          \<and> (\<forall>j < length (propertyList s).
                emitted_lines H (frontmatterLists s ! i) (propertyList s) ! j
                  = prop_key (propertyList s ! j) @ '': ''
                    @ emitted_text H (resolved (frontmatterLists s ! i) (propertyList s ! j)))"
  proof (intro allI impI conjI)
    fix i assume "i < length (fileList s)"
    with assms(1) have "frontmatterLists s ! i \<in> set (frontmatterLists s)" by simp
    with assms(3) have "\<forall>e \<in> set (propertyList s). renders H (resolved (frontmatterLists s ! i) e)"
      by blast
    then show "renderList H (Some (frontmatterLists s ! i)) (propertyList s)
            = Inr (emitted_lines H (frontmatterLists s ! i) (propertyList s))"
      by (rule renderList_ok)
  next
    fix i
    show "length (emitted_lines H (frontmatterLists s ! i) (propertyList s)) = length (propertyList s)"
      by (simp add: emitted_lines_def)
  next
    fix i j assume "j < length (propertyList s)"
    then show "emitted_lines H (frontmatterLists s ! i) (propertyList s) ! j
                  = prop_key (propertyList s ! j) @ '': ''
                    @ emitted_text H (resolved (frontmatterLists s ! i) (propertyList s ! j))"
      by (simp add: emitted_lines_def)
  qed
  show "(\<forall>fl \<in> set (frontmatterLists s). \<forall>e \<in> set (propertyList s).
           unbroken H (prop_key e) (resolved fl e))
        \<and> propertyList s \<noteq> [] \<longrightarrow>
        (\<forall>i < length (fileList s).
           js_split [CHR 0x0A]
               (newFrontmatter (emitted_lines H (frontmatterLists s ! i) (propertyList s)))
             = ''---''
               # concat (map (\<lambda>e. entry_lines H (prop_key e) (resolved (frontmatterLists s ! i) e))
                           (propertyList s))
               @ [''---'', []])"
  proof (intro allI impI, elim conjE)
    fix i
    assume u: "\<forall>fl \<in> set (frontmatterLists s). \<forall>e \<in> set (propertyList s).
           unbroken H (prop_key e) (resolved fl e)"
      and ne: "propertyList s \<noteq> []" and i: "i < length (fileList s)"
    from i assms(1) have m: "frontmatterLists s ! i \<in> set (frontmatterLists s)" by simp
    from m assms(3) have r': "\<forall>e \<in> set (propertyList s). renders H (resolved (frontmatterLists s ! i) e)"
      by blast
    from m u have u': "\<forall>e \<in> set (propertyList s).
        unbroken H (prop_key e) (resolved (frontmatterLists s ! i) e)"
      by blast
    show "js_split [CHR 0x0A]
               (newFrontmatter (emitted_lines H (frontmatterLists s ! i) (propertyList s)))
             = ''---''
               # concat (map (\<lambda>e. entry_lines H (prop_key e) (resolved (frontmatterLists s ! i) e))
                           (propertyList s))
               @ [''---'', []]"
      by (rule block_lines[OF ne r' u'])
  qed
  show "ids_below s \<and> trim (newAddName s) \<noteq> []
        \<and> trim (newAddName s) \<notin> prop_key ` set (propertyList s) \<longrightarrow>
        last (propertyList (addNewProperty (JStr []) ''Text'' s))
          = \<lparr>prop_id = next_uuid s, prop_key = trim (newAddName s), prop_value = JStr [],
             prop_type = ''Text'', prop_types = None\<rparr>
        \<and> (\<forall>fl \<in> set (frontmatterLists (addNewProperty (JStr []) ''Text'' s)).
             resolved fl (last (propertyList (addNewProperty (JStr []) ''Text'' s))) = JStr [])
        \<and> entry_lines H (trim (newAddName s)) (JStr []) = [trim (newAddName s) @ '': '']
        \<and> last (propertyList (addNewProperty JNull ''Null'' s))
          = \<lparr>prop_id = next_uuid s, prop_key = trim (newAddName s), prop_value = JNull,
             prop_type = ''Null'', prop_types = None\<rparr>
        \<and> (\<forall>fl \<in> set (frontmatterLists (addNewProperty JNull ''Null'' s)).
             resolved fl (last (propertyList (addNewProperty JNull ''Null'' s))) = JNull)"
  proof (intro impI, elim conjE)
    assume h: "ids_below s" "trim (newAddName s) \<noteq> []"
      "trim (newAddName s) \<notin> prop_key ` set (propertyList s)"
    have e: "entry_lines H (trim (newAddName s)) (JStr []) = [trim (newAddName s) @ '': '']"
      by (simp add: entry_lines_def scalar_text_def)
    from added_entry_default[OF h, of "JStr []" "''Text''"]
      added_entry_default[OF h, of JNull "''Null''"] e
    show "last (propertyList (addNewProperty (JStr []) ''Text'' s))
          = \<lparr>prop_id = next_uuid s, prop_key = trim (newAddName s), prop_value = JStr [],
             prop_type = ''Text'', prop_types = None\<rparr>
        \<and> (\<forall>fl \<in> set (frontmatterLists (addNewProperty (JStr []) ''Text'' s)).
             resolved fl (last (propertyList (addNewProperty (JStr []) ''Text'' s))) = JStr [])
        \<and> entry_lines H (trim (newAddName s)) (JStr []) = [trim (newAddName s) @ '': '']
        \<and> last (propertyList (addNewProperty JNull ''Null'' s))
          = \<lparr>prop_id = next_uuid s, prop_key = trim (newAddName s), prop_value = JNull,
             prop_type = ''Null'', prop_types = None\<rparr>
        \<and> (\<forall>fl \<in> set (frontmatterLists (addNewProperty JNull ''Null'' s)).
             resolved fl (last (propertyList (addNewProperty JNull ''Null'' s))) = JNull)"
      by blast
  qed
qed

text \<open>
  The theorem in the session over \<open>ex_movies\<close> after Add of \<open>Score\<close>: every document,
  also the one without a metadata block, gets \<open>Score: \<close> as its last entry, and the
  block of the first document has the four lines of its entries and nothing else.
\<close>

theorem C1_replay_emission_witness:
  "length (frontmatterLists ex_scored) = length (fileList ex_scored)
   \<and> distinct (fileList ex_scored)
   \<and> list_all (\<lambda>fl. list_all (\<lambda>e. renders ex_host (resolved fl e)) (propertyList ex_scored))
        (frontmatterLists ex_scored)
   \<and> list_all (\<lambda>fl. list_all (\<lambda>e. unbroken ex_host (prop_key e) (resolved fl e))
                       (propertyList ex_scored))
        (frontmatterLists ex_scored)
   \<and> propertyList ex_scored \<noteq> []
   \<and> updateMarkdownFiles ex_host ex_scored ex_vault =
        (\<lambda>f. if f \<in> set (fileList ex_scored)
              then newFrontmatter
                     (emitted_lines ex_host
                        (frontmatterLists ex_scored ! index_of f (fileList ex_scored))
                        (propertyList ex_scored))
                   @ newContent (ex_vault f)
              else ex_vault f, None)
   \<and> emitted_lines ex_host (frontmatterLists ex_scored ! 0) (propertyList ex_scored)
       = [''Title: Alien'', ''Year: 1979'', ''Director: '', ''Score: '']
   \<and> renderList ex_host (Some (frontmatterLists ex_scored ! 3)) (propertyList ex_scored)
       = Inr (emitted_lines ex_host (frontmatterLists ex_scored ! 3) (propertyList ex_scored))
   \<and> emitted_lines ex_host (frontmatterLists ex_scored ! 3) (propertyList ex_scored)
       = [''Title: '', ''Year: '', ''Director: '', ''Score: '']
   \<and> js_split [CHR 0x0A]
         (newFrontmatter (emitted_lines ex_host (frontmatterLists ex_scored ! 0) (propertyList ex_scored)))
       = ''---''
         # concat (map (\<lambda>e. entry_lines ex_host (prop_key e) (resolved (frontmatterLists ex_scored ! 0) e))
                     (propertyList ex_scored))
         @ [''---'', []]
   \<and> concat (map (\<lambda>e. entry_lines ex_host (prop_key e) (resolved (frontmatterLists ex_scored ! 0) e))
                (propertyList ex_scored))
       = [''Title: Alien'', ''Year: 1979'', ''Director: '', ''Score: '']
   \<and> newFrontmatter (emitted_lines ex_host (frontmatterLists ex_scored ! 0) (propertyList ex_scored))
         @ newContent (ex_vault 0)
       = ''---\<newline>Title: Alien\<newline>Year: 1979\<newline>Director: \<newline>Score: \<newline>---\<newline>A film.''
   \<and> ids_below ex_typed
   \<and> trim (newAddName ex_typed) = ''Score''
   \<and> ''Score'' \<notin> prop_key ` set (propertyList ex_typed)
   \<and> last (propertyList ex_scored)
       = \<lparr>prop_id = 3, prop_key = ''Score'', prop_value = JStr [], prop_type = ''Text'',
          prop_types = None\<rparr>
   \<and> list_all (\<lambda>fl. resolved fl (last (propertyList ex_scored)) = JStr [])
        (frontmatterLists ex_scored)
   \<and> plain ex_host (JArr [JStr ''[[Page]]'', JNum 7])
   \<and> renders ex_host (JArr [JStr ''[[Page]]'', JNum 7])"
proof -
  have pl: "plain ex_host (JArr [JStr ''[[Page]]'', JNum 7])"
    by code_simp
  have a: "length (frontmatterLists ex_scored) = length (fileList ex_scored)"
    "distinct (fileList ex_scored)"
    by code_simp+
  have r: "list_all (\<lambda>fl. list_all (\<lambda>e. renders ex_host (resolved fl e)) (propertyList ex_scored))
        (frontmatterLists ex_scored)"
    by code_simp
  then have r': "\<forall>fl \<in> set (frontmatterLists ex_scored). \<forall>e \<in> set (propertyList ex_scored).
      renders ex_host (resolved fl e)"
    by (simp add: list_all_iff)
  have ub: "list_all (\<lambda>fl. list_all (\<lambda>e. unbroken ex_host (prop_key e) (resolved fl e))
                       (propertyList ex_scored))
        (frontmatterLists ex_scored)"
    by code_simp
  then have ub': "\<forall>fl \<in> set (frontmatterLists ex_scored). \<forall>e \<in> set (propertyList ex_scored).
      unbroken ex_host (prop_key e) (resolved fl e)"
    by (simp add: list_all_iff)
  have ne: "propertyList ex_scored \<noteq> []"
    by code_simp
  have l: "emitted_lines ex_host (frontmatterLists ex_scored ! 0) (propertyList ex_scored)
       = [''Title: Alien'', ''Year: 1979'', ''Director: '', ''Score: '']"
    "emitted_lines ex_host (frontmatterLists ex_scored ! 3) (propertyList ex_scored)
       = [''Title: '', ''Year: '', ''Director: '', ''Score: '']"
    by code_simp+
  have el: "concat (map (\<lambda>e. entry_lines ex_host (prop_key e) (resolved (frontmatterLists ex_scored ! 0) e))
                (propertyList ex_scored))
       = [''Title: Alien'', ''Year: 1979'', ''Director: '', ''Score: '']"
    by code_simp
  have c: "newFrontmatter (emitted_lines ex_host (frontmatterLists ex_scored ! 0) (propertyList ex_scored))
         @ newContent (ex_vault 0)
       = ''---\<newline>Title: Alien\<newline>Year: 1979\<newline>Director: \<newline>Score: \<newline>---\<newline>A film.''"
    by code_simp
  have t: "trim (newAddName ex_typed) = ''Score''" "next_uuid ex_typed = 3"
    "''Score'' \<notin> prop_key ` set (propertyList ex_typed)"
    by code_simp+
  have i0: "(0::nat) < length (fileList ex_scored)" and i3: "(3::nat) < length (fileList ex_scored)"
    by code_simp+
  have ib: "ids_below ex_typed"
    unfolding ex_typed_def by (intro ids_below_edits ids_below_initializeView)
  note T = C1_replay_emission[OF a r', where vault = ex_vault]
  from T[where v = "JArr [JStr ''[[Page]]'', JNum 7]", THEN conjunct2, THEN conjunct2,
      THEN conjunct2, THEN conjunct2, THEN conjunct2, THEN mp, OF pl]
  have rn: "renders ex_host (JArr [JStr ''[[Page]]'', JNum 7])" .
  from T have u: "updateMarkdownFiles ex_host ex_scored ex_vault =
        (\<lambda>f. if f \<in> set (fileList ex_scored)
              then newFrontmatter
                     (emitted_lines ex_host
                        (frontmatterLists ex_scored ! index_of f (fileList ex_scored))
                        (propertyList ex_scored))
                   @ newContent (ex_vault f)
              else ex_vault f, None)"
    by (rule conjunct1)
  from T[THEN conjunct2, THEN conjunct1, rule_format, OF i3]
  have rl: "renderList ex_host (Some (frontmatterLists ex_scored ! 3)) (propertyList ex_scored)
       = Inr (emitted_lines ex_host (frontmatterLists ex_scored ! 3) (propertyList ex_scored))"
    by (rule conjunct1)
  from T[THEN conjunct2, THEN conjunct2, THEN conjunct1, THEN mp, OF conjI[OF ub' ne],
      rule_format, OF i0]
  have bl: "js_split [CHR 0x0A]
         (newFrontmatter (emitted_lines ex_host (frontmatterLists ex_scored ! 0) (propertyList ex_scored)))
       = ''---''
         # concat (map (\<lambda>e. entry_lines ex_host (prop_key e) (resolved (frontmatterLists ex_scored ! 0) e))
                     (propertyList ex_scored))
         @ [''---'', []]" .
  have a0: "length (frontmatterLists ex_typed) = length (fileList ex_typed)"
    "distinct (fileList ex_typed)"
    by code_simp+
  have r0: "list_all (\<lambda>fl. list_all (\<lambda>e. renders ex_host (resolved fl e)) (propertyList ex_typed))
        (frontmatterLists ex_typed)"
    by code_simp
  then have r0': "\<forall>fl \<in> set (frontmatterLists ex_typed). \<forall>e \<in> set (propertyList ex_typed).
      renders ex_host (resolved fl e)"
    by (simp add: list_all_iff)
  have tn: "trim (newAddName ex_typed) \<noteq> []" using t(1) by simp
  have fr: "trim (newAddName ex_typed) \<notin> prop_key ` set (propertyList ex_typed)"
    using t(1) t(3) by simp
  note A = C1_replay_emission[OF a0 r0', THEN conjunct2, THEN conjunct2, THEN conjunct2,
      THEN conjunct1, THEN mp, OF conjI[OF ib conjI[OF tn fr]],
      folded ex_scored_def, unfolded t(1) t(2)]
  from A have la: "last (propertyList ex_scored)
       = \<lparr>prop_id = 3, prop_key = ''Score'', prop_value = JStr [], prop_type = ''Text'',
          prop_types = None\<rparr>"
    by (rule conjunct1)
  from A[THEN conjunct2] have "\<forall>fl \<in> set (frontmatterLists ex_scored).
      resolved fl (last (propertyList ex_scored)) = JStr []"
    by (rule conjunct1)
  then have dv: "list_all (\<lambda>fl. resolved fl (last (propertyList ex_scored)) = JStr [])
        (frontmatterLists ex_scored)"
    by (simp add: list_all_iff)
  from a r ub ne u l rl bl el c ib t(1) t(3) la dv pl rn show ?thesis by (simp only: simp_thms)
qed

text \<open>
  C1 as stated does not hold: Add has no default to pass. After \<open>Score\<close> is typed into
  the add field and added, the new entry has the value \<open>''\<close>, and the first document is
  written with the line \<open>Score: \<close>; no line \<open>Score: 0\<close> stands in it.
\<close>

theorem C1_counterexample:
  "newAddName ex_typed = ''Score''
   \<and> last (propertyList (addNewProperty (JStr []) ''Text'' ex_typed))
       = \<lparr>prop_id = 3, prop_key = ''Score'', prop_value = JStr [], prop_type = ''Text'',
          prop_types = None\<rparr>
   \<and> snd (updateMarkdownFiles ex_host (addNewProperty (JStr []) ''Text'' ex_typed) ex_vault) = None
   \<and> js_split [CHR 0x0A]
        (fst (updateMarkdownFiles ex_host (addNewProperty (JStr []) ''Text'' ex_typed) ex_vault) 0)
       = [''---'', ''Title: Alien'', ''Year: 1979'', ''Director: '', ''Score: '', ''---'', ''A film.'']
   \<and> ''Score: 0'' \<notin> set (js_split [CHR 0x0A]
        (fst (updateMarkdownFiles ex_host (addNewProperty (JStr []) ''Text'' ex_typed) ex_vault) 0))"
  by code_simp

text \<open>
  C8, at the input where the code departs from it: a string that matches
  \<open>wikiLinkPattern\<close> is quoted as an element of a list, but as the value of a key it
  is returned as it is and the line reads \<open>link: [[Page]]\<close>; and a list nested in a
  list whose text reads as a link raises a TypeError.
\<close>

theorem C8_scalar_link_unquoted:
  "wikiLinkPattern_test ''[[Page]]''
   \<and> stringifyValue H (JStr ''[[Page]]'') = Inr (JStr ''[[Page]]'')
   \<and> renderLine H
        [\<lparr>prop_id = 0, prop_key = ''link'', prop_value = JStr ''[[Page]]'', prop_type = ''Text'',
          prop_types = None\<rparr>]
        \<lparr>prop_id = 0, prop_key = ''link'', prop_value = JStr [], prop_type = ''Text'',
          prop_types = None\<rparr>
       = Inr ''link: [[Page]]''
   \<and> stringifyValue H (JArr [JStr ''[[Page]]''])
       = Inr (JStr ([CHR 0x0A] @ ''  - '' @ [CHR 0x22] @ ''[[Page]]'' @ [CHR 0x22]))
   \<and> stringifyValue H (JArr [JArr [JStr ''[[Page]]'']]) = Inl TypeError"
proof -
  have w: "wikiLinkPattern_test ''[[Page]]''"
    by code_simp
  then show ?thesis
    by (simp add: stringifyValue_def renderLine_def found_or_def stringify_item_def
        escape_quotes_def)
qed

text \<open>
  C9, at the input where the code departs from it: a file text without \<open>---\<close> is split
  into one piece, \<open>slice(2)\<close> leaves nothing, and the rewritten file is the new metadata
  block alone (empty for an empty working list): the body is gone.
\<close>

theorem C9_body_without_delimiters_lost:
  "js_split ''---'' ''Hello world'' = [''Hello world'']
   \<and> newContent ''Hello world'' = []
   \<and> rewriteFile H (Some [])
        [\<lparr>prop_id = 0, prop_key = ''Score'', prop_value = JStr [], prop_type = ''Text'',
          prop_types = None\<rparr>] ''Hello world''
       = Inr (''---'' @ [CHR 0x0A] @ ''Score: '' @ [CHR 0x0A] @ ''---'' @ [CHR 0x0A])
   \<and> rewriteFile H (Some []) [] ''Hello world'' = Inr []"
proof -
  have s: "js_split ''---'' ''Hello world'' = [''Hello world'']"
    by code_simp
  have n: "newContent ''Hello world'' = []"
    by code_simp
  show ?thesis
    by (simp add: s n rewriteFile_def renderList_def renderLine_def found_or_def
        stringifyValue_def newFrontmatter_def del: js_split.simps)
qed

end
